theory Spec2Isabelle
  imports Complex_Main "HOL-Library.AList" "HOL-Library.Sublist"
begin

section \<open>Dual-window rate limiter (middleware/rateLimiter.ts)\<close>

text \<open>
  Times are milliseconds as returned by \<^verbatim>\<open>Date.now()\<close>, modelled as integers and
  passed to every operation as the explicit argument \<open>now\<close>.
\<close>

record RateLimitConfig =
  maxRequests :: int
  windowMs :: int
  burstRequests :: int
  burstWindowMs :: int

text \<open>
  The source's \<^verbatim>\<open>ClientRecord\<close> has the fields \<^verbatim>\<open>requests\<close> and
  \<^verbatim>\<open>burstRequests\<close>; the second one is called \<open>burstTimes\<close> here, because the
  configuration already has a field \<open>burstRequests\<close>.
\<close>

record ClientRecord =
  requests :: "int list"
  burstTimes :: "int list"

record RateLimiter =
  clients :: "string \<rightharpoonup> ClientRecord"
  config :: RateLimitConfig

text \<open>
  The middleware either calls \<^verbatim>\<open>next()\<close> or answers 429 with a message that names the
  limit that was hit and a \<^verbatim>\<open>retryAfter\<close> number. \<open>retryAfter = None\<close> stands for
  the \<^verbatim>\<open>NaN\<close> that JavaScript computes from the missing element \<^verbatim>\<open>[0]\<close> of an
  empty array.
\<close>

datatype limit = BurstLimit | RateLimit

datatype response = Next | TooManyRequests limit "int option"

definition RateLimiter_new :: "RateLimitConfig \<Rightarrow> RateLimiter" where
  "RateLimiter_new cfg = \<lparr>clients = Map.empty, config = cfg\<rparr>"

text \<open>\<^verbatim>\<open>Math.ceil(x / 1000)\<close> on an integer \<open>x\<close>, in integer arithmetic.\<close>

definition ceil_div_1000 :: "int \<Rightarrow> int" where
  "ceil_div_1000 x = - ((- x) div 1000)"

text \<open>\<^verbatim>\<open>Math.ceil((ts[0] + window - now) / 1000)\<close>.\<close>

definition retryAfter :: "int list \<Rightarrow> int \<Rightarrow> int \<Rightarrow> int option" where
  "retryAfter ts window now =
     (case ts of [] \<Rightarrow> None | t0 # _ \<Rightarrow> Some (ceil_div_1000 (t0 + window - now)))"

text \<open>The record the middleware works on: the stored one, or a new empty one.\<close>

definition client_record :: "RateLimiter \<Rightarrow> string \<Rightarrow> ClientRecord" where
  "client_record s clientId =
     (case clients s clientId of
        None \<Rightarrow> \<lparr>requests = [], burstTimes = []\<rparr>
      | Some r \<Rightarrow> r)"

definition middleware :: "RateLimiter \<Rightarrow> string \<Rightarrow> int \<Rightarrow> RateLimiter \<times> response" where
  "middleware s clientId now =
     (let cfg = config s;
          record0 = client_record s clientId;
          reqs = filter (\<lambda>t. now - t < windowMs cfg) (requests record0);
          bursts = filter (\<lambda>t. now - t < burstWindowMs cfg) (burstTimes record0)
      in
        if int (length bursts) \<ge> burstRequests cfg then
          (s\<lparr>clients := (clients s)(clientId \<mapsto> \<lparr>requests = reqs, burstTimes = bursts\<rparr>)\<rparr>,
           TooManyRequests BurstLimit (retryAfter bursts (burstWindowMs cfg) now))
        else if int (length reqs) \<ge> maxRequests cfg then
          (s\<lparr>clients := (clients s)(clientId \<mapsto> \<lparr>requests = reqs, burstTimes = bursts\<rparr>)\<rparr>,
           TooManyRequests RateLimit (retryAfter reqs (windowMs cfg) now))
        else
          (s\<lparr>clients := (clients s)(clientId \<mapsto>
               \<lparr>requests = reqs @ [now], burstTimes = bursts @ [now]\<rparr>)\<rparr>,
           Next))"

text \<open>The periodic cleanup: prune every record, drop the records that became empty.\<close>

definition cleanup :: "RateLimiter \<Rightarrow> int \<Rightarrow> RateLimiter" where
  "cleanup s now =
     s\<lparr>clients := (\<lambda>clientId.
          case clients s clientId of
            None \<Rightarrow> None
          | Some r \<Rightarrow>
              (let reqs = filter (\<lambda>t. now - t < windowMs (config s)) (requests r);
                   bursts = filter (\<lambda>t. now - t < burstWindowMs (config s)) (burstTimes r)
               in if reqs = [] \<and> bursts = [] then None
                  else Some \<lparr>requests = reqs, burstTimes = bursts\<rparr>))\<rparr>"

text \<open>A sequence of requests of one client, at the given times: the responses in order.\<close>

fun requests_at :: "RateLimiter \<Rightarrow> string \<Rightarrow> int list \<Rightarrow> RateLimiter \<times> response list" where
  "requests_at s clientId [] = (s, [])"
| "requests_at s clientId (now # nows) =
     (let (s1, r) = middleware s clientId now;
          (s2, rs) = requests_at s1 clientId nows
      in (s2, r # rs))"

text \<open>
  What reaches the limiter in the course of time: the request of a client, or a run of the
  periodic cleanup, each with the reading of \<^verbatim>\<open>Date.now()\<close> that it makes.
\<close>

datatype limiter_event = Request string int | Cleanup int

definition limiter_step :: "RateLimiter \<Rightarrow> limiter_event \<Rightarrow> RateLimiter" where
  "limiter_step s ev =
     (case ev of
        Request clientId now \<Rightarrow> fst (middleware s clientId now)
      | Cleanup now \<Rightarrow> cleanup s now)"

definition limiter_run :: "RateLimiter \<Rightarrow> limiter_event list \<Rightarrow> RateLimiter" where
  "limiter_run s evs = foldl limiter_step s evs"

text \<open>The clock readings of the requests of one client, in the order of the requests.\<close>

fun request_times :: "string \<Rightarrow> limiter_event list \<Rightarrow> int list" where
  "request_times clientId [] = []"
| "request_times clientId (Request c now # evs) =
     (if c = clientId then now # request_times clientId evs else request_times clientId evs)"
| "request_times clientId (Cleanup now # evs) = request_times clientId evs"

text \<open>The limiter of \<^verbatim>\<open>index.ts\<close> (10 requests per minute, 5 per 10 seconds), new.\<close>

definition limiter_index :: RateLimiter where
  "limiter_index = RateLimiter_new
     \<lparr>maxRequests = 10, windowMs = 60000, burstRequests = 5, burstWindowMs = 10000\<rparr>"

section \<open>Asynchronous queue (queue/AsyncQueue.ts)\<close>

text \<open>
  JavaScript runs every piece of code between two suspension points to completion. The
  methods of \<^verbatim>\<open>AsyncQueue\<close> suspend at one place only, the \<^verbatim>\<open>await task.fn()\<close>
  inside \<^verbatim>\<open>processQueue\<close>, so the queue changes in two kinds of atomic steps: a call
  of \<^verbatim>\<open>enqueue\<close>, and the continuation after the \<^verbatim>\<open>await\<close> that runs when the
  promise of a fetch function settles.

  A value that is thrown, or that a promise is rejected with, is an instance of
  \<^verbatim>\<open>Error\<close> (given by its message) or any other value.
\<close>

datatype thrown = IsError string | NotError string

datatype 'v outcome = Resolved 'v | Rejected thrown

text \<open>
  What a call of the fetch function \<^verbatim>\<open>fn\<close> does before it returns: it returns a
  promise, which the environment settles later, or it throws at once (a function of type
  \<^verbatim>\<open>() => Promise<T>\<close> that is not declared \<^verbatim>\<open>async\<close> may do so).
\<close>

datatype fetch = Returns | Throws thrown

text \<open>
  The promises of the \<open>n\<close>-th task: \<open>Caller n\<close> is the \<^verbatim>\<open>new Promise\<close> that
  \<^verbatim>\<open>enqueue\<close> returns to the caller who created the task, settled by
  \<^verbatim>\<open>task.resolve\<close> and \<^verbatim>\<open>task.reject\<close>; \<open>Inner n\<close> is the promise of the async arrow
  function that \<^verbatim>\<open>processQueue\<close> stores in \<^verbatim>\<open>processing\<close>.
\<close>

datatype promise = Caller nat | Inner nat

text \<open>
  \<^verbatim>\<open>QueueTask\<close>: the source's \<^verbatim>\<open>id\<close> is \<open>id_t\<close>; \<open>caller\<close> stands for the pair
  \<^verbatim>\<open>resolve\<close>, \<^verbatim>\<open>reject\<close>, the two functions that settle the promise \<open>Caller caller\<close>.
\<close>

record QueueTask =
  id_t :: string
  fn :: fetch
  caller :: nat

text \<open>
  The four fields of the class, and the part of the JavaScript environment that the claims
  speak about: the promises that are settled (with their outcome), the tasks whose fetch
  function has been called and whose promise is pending (\<open>executing\<close>), the log of all calls
  of fetch functions (\<open>invoked\<close>), the largest number of fetch functions that were executing at
  the same time (\<open>peak\<close>), the number of tasks created, and the log of the promises that
  \<^verbatim>\<open>enqueue\<close> returned, with the key of the call.
\<close>

record 'v AsyncQueue =
  queue :: "QueueTask list"
  processing :: "string \<rightharpoonup> promise"
  maxConcurrent :: int
  currentlyProcessing :: int
  promises :: "promise \<rightharpoonup> 'v outcome"
  executing :: "QueueTask list"
  invoked :: "QueueTask list"
  peak :: nat
  created :: nat
  returned :: "(string \<times> promise) list"

definition AsyncQueue_new :: "int \<Rightarrow> 'v AsyncQueue" where
  "AsyncQueue_new m =
     \<lparr>queue = [], processing = Map.empty, maxConcurrent = m, currentlyProcessing = 0,
      promises = Map.empty, executing = [], invoked = [], peak = 0, created = 0,
      returned = []\<rparr>"

text \<open>\<^verbatim>\<open>error instanceof Error ? error : new Error('Unknown error')\<close>\<close>

definition as_Error :: "thrown \<Rightarrow> thrown" where
  "as_Error e = (case e of IsError m \<Rightarrow> IsError m | NotError x \<Rightarrow> IsError ''Unknown error'')"

text \<open>
  The body of the async arrow function after the \<^verbatim>\<open>await\<close>, in three parts. First the
  \<^verbatim>\<open>try\<close> or the \<^verbatim>\<open>catch\<close> branch: \<^verbatim>\<open>task.resolve(result)\<close>, or \<^verbatim>\<open>task.reject\<close>
  of the error made an \<^verbatim>\<open>Error\<close>.
\<close>

definition settle_caller :: "'v AsyncQueue \<Rightarrow> QueueTask \<Rightarrow> 'v outcome \<Rightarrow> 'v AsyncQueue" where
  "settle_caller s task out =
     (case out of
        Resolved result \<Rightarrow> s\<lparr>promises := (promises s)(Caller (caller task) \<mapsto> Resolved result)\<rparr>
      | Rejected error \<Rightarrow>
          s\<lparr>promises := (promises s)(Caller (caller task) \<mapsto> Rejected (as_Error error))\<rparr>)"

text \<open>
  Then the \<^verbatim>\<open>finally\<close> block up to its call of \<^verbatim>\<open>processQueue\<close>:
  \<^verbatim>\<open>this.processing.delete(task.id); this.currentlyProcessing--\<close>.
\<close>

definition finally_block :: "'v AsyncQueue \<Rightarrow> QueueTask \<Rightarrow> 'v AsyncQueue" where
  "finally_block s task =
     s\<lparr>processing := (processing s)(id_t task := None),
       currentlyProcessing := currentlyProcessing s - 1\<rparr>"

text \<open>
  At the end the promise of the arrow function itself settles: resolved with the
  \<^verbatim>\<open>result\<close> that was returned, or rejected with the \<^verbatim>\<open>error\<close> that was thrown
  again (the error as it was caught).
\<close>

definition settle_inner :: "'v AsyncQueue \<Rightarrow> QueueTask \<Rightarrow> 'v outcome \<Rightarrow> 'v AsyncQueue" where
  "settle_inner s task out = s\<lparr>promises := (promises s)(Inner (caller task) \<mapsto> out)\<rparr>"

text \<open>The call \<^verbatim>\<open>task.fn()\<close>, as the environment sees it.\<close>

definition call_fn :: "'v AsyncQueue \<Rightarrow> QueueTask \<Rightarrow> 'v AsyncQueue" where
  "call_fn s task =
     s\<lparr>invoked := invoked s @ [task],
       peak := max (peak s) (length (executing s) + 1)\<rparr>"

text \<open>
  \<^verbatim>\<open>processQueue\<close>. The arrow function is called at once and runs up to the
  \<^verbatim>\<open>await\<close>: it calls \<^verbatim>\<open>task.fn()\<close>. When that call returns a promise the arrow function
  is suspended and \<^verbatim>\<open>processing.set(task.id, promise)\<close> follows. When the call throws,
  nothing is suspended: the \<^verbatim>\<open>catch\<close> and the \<^verbatim>\<open>finally\<close> block run inside the call of
  the arrow function, with the nested \<^verbatim>\<open>processQueue()\<close>, the arrow function returns a
  rejected promise, and \<^verbatim>\<open>processing.set(task.id, promise)\<close> comes last.
\<close>

function processQueue :: "'v AsyncQueue \<Rightarrow> 'v AsyncQueue" where
  "processQueue s =
     (if currentlyProcessing s \<ge> maxConcurrent s \<or> queue s = [] then s
      else
        (case queue s of
           [] \<Rightarrow> s
         | task # rest \<Rightarrow>
             (let s1 = s\<lparr>queue := rest, currentlyProcessing := currentlyProcessing s + 1\<rparr>;
                  s2 = call_fn s1 task
              in
                case fn task of
                  Returns \<Rightarrow>
                    (let s3 = s2\<lparr>executing := executing s2 @ [task]\<rparr>
                     in s3\<lparr>processing := (processing s3)(id_t task \<mapsto> Inner (caller task))\<rparr>)
                | Throws error \<Rightarrow>
                    (let s3 = settle_caller s2 task (Rejected error);
                         s4 = processQueue (finally_block s3 task);
                         s5 = settle_inner s4 task (Rejected error)
                     in s5\<lparr>processing := (processing s5)(id_t task \<mapsto> Inner (caller task))\<rparr>))))"
  by pat_completeness auto
termination
  by (relation "measure (\<lambda>s. length (queue s))")
     (auto simp add: finally_block_def settle_caller_def call_fn_def)

text \<open>
  \<^verbatim>\<open>enqueue\<close>, with the promise it returns. The new task gets the next task number.
\<close>

definition enqueue :: "'v AsyncQueue \<Rightarrow> string \<Rightarrow> fetch \<Rightarrow> 'v AsyncQueue \<times> promise" where
  "enqueue s ident f =
     (case processing s ident of
        Some existingTask \<Rightarrow> (s\<lparr>returned := returned s @ [(ident, existingTask)]\<rparr>, existingTask)
      | None \<Rightarrow>
          (let task = \<lparr>id_t = ident, fn = f, caller = created s\<rparr>;
               s1 = s\<lparr>queue := queue s @ [task], created := created s + 1\<rparr>;
               s2 = processQueue s1
           in (s2\<lparr>returned := returned s2 @ [(ident, Caller (caller task))]\<rparr>, Caller (caller task))))"

text \<open>
  The promise of the fetch function of the executing task number \<open>n\<close> settles with \<open>out\<close>:
  the arrow function continues after its \<^verbatim>\<open>await\<close>. Nothing happens when no such task is
  executing (a promise settles once).
\<close>

definition settle :: "'v AsyncQueue \<Rightarrow> nat \<Rightarrow> 'v outcome \<Rightarrow> 'v AsyncQueue" where
  "settle s n out =
     (case find (\<lambda>t. caller t = n) (executing s) of
        None \<Rightarrow> s
      | Some task \<Rightarrow>
          (let s1 = s\<lparr>executing := remove1 task (executing s)\<rparr>;
               s2 = settle_caller s1 task out;
               s3 = processQueue (finally_block s2 task)
           in settle_inner s3 task out))"

datatype 'v event = Enqueue string fetch | Settle nat "'v outcome"

fun step :: "'v AsyncQueue \<Rightarrow> 'v event \<Rightarrow> 'v AsyncQueue" where
  "step s (Enqueue ident f) = fst (enqueue s ident f)"
| "step s (Settle n out) = settle s n out"

definition run :: "'v AsyncQueue \<Rightarrow> 'v event list \<Rightarrow> 'v AsyncQueue" where
  "run s evs = foldl step s evs"


text \<open>
  The state in which the nested \<^verbatim>\<open>processQueue()\<close> of the \<^verbatim>\<open>finally\<close> block is called
  when the fetch function of \<open>task\<close> has thrown: the task is taken from the queue, its
  function was called, its caller's promise is rejected, the \<^verbatim>\<open>finally\<close> block has deleted the
  entry of the key and has decremented the counter.
\<close>

definition thrown_state :: "'v AsyncQueue \<Rightarrow> QueueTask \<Rightarrow> QueueTask list \<Rightarrow> thrown \<Rightarrow> 'v AsyncQueue" where
  "thrown_state s task rest error =
     finally_block (settle_caller (call_fn (s\<lparr>queue := rest, currentlyProcessing := currentlyProcessing s + 1\<rparr>) task) task (Rejected error)) task"

text \<open>
  The counter \<^verbatim>\<open>currentlyProcessing\<close> is the number of executing fetch functions, and neither it
  nor the peak exceeds \<^verbatim>\<open>maxConcurrent\<close> (read as zero when negative).
\<close>

definition bounded :: "'v AsyncQueue \<Rightarrow> bool" where
  "bounded s \<longleftrightarrow> int (length (executing s)) = currentlyProcessing s
     \<and> currentlyProcessing s \<le> max 0 (maxConcurrent s)
     \<and> int (peak s) \<le> max 0 (maxConcurrent s)"

text \<open>
  The same for a task whose promise settles later: the state in which the \<^verbatim>\<open>finally\<close> block
  calls \<^verbatim>\<open>processQueue()\<close>.
\<close>

definition settled_state :: "'v AsyncQueue \<Rightarrow> QueueTask \<Rightarrow> 'v outcome \<Rightarrow> 'v AsyncQueue" where
  "settled_state s task out =
     finally_block (settle_caller (s\<lparr>executing := remove1 task (executing s)\<rparr>) task out) task"

text \<open>
  The tasks that wait or execute have different numbers, all below the number of tasks created,
  and their two promises are pending; so are the promises of the tasks not yet created.
\<close>

definition tasks_ok :: "'v AsyncQueue \<Rightarrow> bool" where
  "tasks_ok s \<longleftrightarrow>
     distinct (map caller (queue s @ executing s))
     \<and> (\<forall>t \<in> set (queue s @ executing s).
           caller t < created s
           \<and> promises s (Caller (caller t)) = None \<and> promises s (Inner (caller t)) = None)
     \<and> (\<forall>n. created s \<le> n \<longrightarrow> promises s (Caller n) = None \<and> promises s (Inner n) = None)"

text \<open>No task waits in the queue while an execution slot is free.\<close>

definition no_idle_slot :: "'v AsyncQueue \<Rightarrow> bool" where
  "no_idle_slot s \<longleftrightarrow> (queue s = [] \<or> maxConcurrent s \<le> currentlyProcessing s)"

text \<open>
  The events in which every fetch function is one that returns a promise (as an \<^verbatim>\<open>async\<close>
  function does, whose failures are rejections of its promise).
\<close>

definition only_returns :: "'v event list \<Rightarrow> bool" where
  "only_returns evs \<longleftrightarrow> list_all (\<lambda>ev. case ev of Enqueue k f \<Rightarrow> f = Returns | Settle n out \<Rightarrow> True) evs"

text \<open>
  Every fetch function in the queue returns a promise, and every entry of \<^verbatim>\<open>processing\<close>
  holds the promise of an executing task with that key.
\<close>

definition entries_live :: "'v AsyncQueue \<Rightarrow> bool" where
  "entries_live s \<longleftrightarrow>
     list_all (\<lambda>t. fn t = Returns) (queue s)
     \<and> (\<forall>k p. processing s k = Some p \<longrightarrow>
           (\<exists>t \<in> set (executing s). p = Inner (caller t) \<and> id_t t = k))"

text \<open>
  The two promises of a task are settled together: the promise of the caller that created
  the task holds the outcome of the promise of the arrow function, with the error made an
  \<^verbatim>\<open>Error\<close>.
\<close>

definition paired :: "'v AsyncQueue \<Rightarrow> bool" where
  "paired s \<longleftrightarrow>
     (\<forall>n. promises s (Caller n) =
            map_option (\<lambda>out. case out of Resolved v \<Rightarrow> Resolved v
                                | Rejected e \<Rightarrow> Rejected (as_Error e))
              (promises s (Inner n)))"

text \<open>
  Every entry of \<^verbatim>\<open>processing\<close> holds the promise of the arrow function of a task with that
  key whose fetch function has been called.
\<close>

definition entries_invoked :: "'v AsyncQueue \<Rightarrow> bool" where
  "entries_invoked s \<longleftrightarrow>
     (\<forall>k p. processing s k = Some p \<longrightarrow>
        (\<exists>t \<in> set (invoked s). id_t t = k \<and> p = Inner (caller t)))"

text \<open>
  The call of \<^verbatim>\<open>enqueue\<close> that created a task has returned the promise of the caller of
  this task.
\<close>

definition callers_logged :: "'v AsyncQueue \<Rightarrow> bool" where
  "callers_logged s \<longleftrightarrow>
     (\<forall>t \<in> set (queue s) \<union> set (invoked s). (id_t t, Caller (caller t)) \<in> set (returned s))"

section \<open>Expiring LRU cache (cache/LRUCache.ts)\<close>

text \<open>
  The nodes of the doubly linked list are objects that the map \<^verbatim>\<open>cache\<close>, the fields
  \<^verbatim>\<open>head\<close> and \<^verbatim>\<open>tail\<close> and the nodes themselves refer to. They live in an explicit
  store \<open>heap\<close> from addresses to nodes; a reference is an address, \<^verbatim>\<open>null\<close> is \<open>None\<close>.
  The source's field \<^verbatim>\<open>value\<close> is \<open>val\<close> and \<^verbatim>\<open>next\<close> is \<open>nxt\<close>.
\<close>

record 'v CacheNode =
  key :: string
  val :: 'v
  timestamp :: int
  prev :: "nat option"
  nxt :: "nat option"

text \<open>\<^verbatim>\<open>CacheStats\<close>; the source's \<^verbatim>\<open>size\<close> is \<open>size_c\<close>.\<close>

record CacheStats =
  hits :: int
  misses :: int
  size_c :: int
  evictions :: int

text \<open>
  The JavaScript \<^verbatim>\<open>Map\<close> keeps its keys in insertion order, which
  \<^verbatim>\<open>cleanupStaleEntries\<close> iterates over: \<^verbatim>\<open>cache\<close> is an association list from keys to
  addresses, \<^verbatim>\<open>Map.set\<close> is \<open>AList.update\<close> (a new key goes to the end) and
  \<^verbatim>\<open>Map.delete\<close> is \<open>AList.delete\<close>. \<open>allocated\<close> is the next unused address, and
  \<open>cleanupInterval\<close> tells whether the timer of the background task is running.
\<close>

record 'v LRUCache =
  capacity :: int
  ttl :: int
  cache :: "(string \<times> nat) list"
  head :: "nat option"
  tail :: "nat option"
  stats :: CacheStats
  cleanupInterval :: bool
  heap :: "nat \<rightharpoonup> 'v CacheNode"
  allocated :: nat

definition LRUCache_new :: "int \<Rightarrow> int \<Rightarrow> 'v LRUCache" where
  "LRUCache_new cap t =
     \<lparr>capacity = cap, ttl = t, cache = [], head = None, tail = None,
      stats = \<lparr>hits = 0, misses = 0, size_c = 0, evictions = 0\<rparr>,
      cleanupInterval = True, heap = Map.empty, allocated = 0\<rparr>"

text \<open>An assignment to fields of the object at an address.\<close>

definition assign :: "(nat \<rightharpoonup> 'v CacheNode) \<Rightarrow> nat \<Rightarrow> ('v CacheNode \<Rightarrow> 'v CacheNode)
    \<Rightarrow> (nat \<rightharpoonup> 'v CacheNode)" where
  "assign h a f = (case h a of None \<Rightarrow> h | Some node \<Rightarrow> h(a \<mapsto> f node))"

definition isExpired :: "'v LRUCache \<Rightarrow> 'v CacheNode \<Rightarrow> int \<Rightarrow> bool" where
  "isExpired s node now \<longleftrightarrow> now - timestamp node > ttl s"

text \<open>
  \<^verbatim>\<open>removeNode(node)\<close>, for the node at address \<open>a\<close>. The second \<^verbatim>\<open>if\<close> reads the
  node again, after the assignment of the first.
\<close>

definition removeNode :: "'v LRUCache \<Rightarrow> nat \<Rightarrow> 'v LRUCache" where
  "removeNode s a =
     (case heap s a of
        None \<Rightarrow> s
      | Some node \<Rightarrow>
          (let s1 = (case prev node of
                       Some p \<Rightarrow> s\<lparr>heap := assign (heap s) p (\<lambda>n. n\<lparr>nxt := nxt node\<rparr>)\<rparr>
                     | None \<Rightarrow> s\<lparr>head := nxt node\<rparr>)
           in case heap s1 a of
                None \<Rightarrow> s1
              | Some node1 \<Rightarrow>
                  (case nxt node1 of
                     Some n \<Rightarrow> s1\<lparr>heap := assign (heap s1) n (\<lambda>m. m\<lparr>prev := prev node1\<rparr>)\<rparr>
                   | None \<Rightarrow> s1\<lparr>tail := prev node1\<rparr>)))"

definition addToHead :: "'v LRUCache \<Rightarrow> nat \<Rightarrow> 'v LRUCache" where
  "addToHead s a =
     (let s1 = s\<lparr>heap := assign (heap s) a (\<lambda>n. n\<lparr>nxt := head s, prev := None\<rparr>)\<rparr>;
          s2 = (case head s1 of
                  Some h \<Rightarrow> s1\<lparr>heap := assign (heap s1) h (\<lambda>n. n\<lparr>prev := Some a\<rparr>)\<rparr>
                | None \<Rightarrow> s1);
          s3 = s2\<lparr>head := Some a\<rparr>
      in case tail s3 of None \<Rightarrow> s3\<lparr>tail := Some a\<rparr> | Some t \<Rightarrow> s3)"

definition moveToHead :: "'v LRUCache \<Rightarrow> nat \<Rightarrow> 'v LRUCache" where
  "moveToHead s a = addToHead (removeNode s a) a"

definition evictLRU :: "'v LRUCache \<Rightarrow> 'v LRUCache" where
  "evictLRU s =
     (case tail s of
        None \<Rightarrow> s
      | Some t \<Rightarrow>
          (case heap s t of
             None \<Rightarrow> s
           | Some node \<Rightarrow>
               (let s1 = s\<lparr>cache := AList.delete (key node) (cache s)\<rparr>;
                    s2 = removeNode s1 t
                in s2\<lparr>stats := (stats s2)\<lparr>size_c := size_c (stats s2) - 1,
                                         evictions := evictions (stats s2) + 1\<rparr>\<rparr>)))"

text \<open>
  The removal of an entry that \<^verbatim>\<open>get\<close>, \<^verbatim>\<open>has\<close> and the background task share:
  \<^verbatim>\<open>this.cache.delete(key); this.removeNode(node); this.stats.size--\<close>.
\<close>

definition drop_entry :: "'v LRUCache \<Rightarrow> string \<Rightarrow> nat \<Rightarrow> 'v LRUCache" where
  "drop_entry s k a =
     (let s1 = s\<lparr>cache := AList.delete k (cache s)\<rparr>;
          s2 = removeNode s1 a
      in s2\<lparr>stats := (stats s2)\<lparr>size_c := size_c (stats s2) - 1\<rparr>\<rparr>)"

text \<open>\<^verbatim>\<open>get(key)\<close> at time \<open>now\<close>: the new state and the value, \<open>None\<close> for \<^verbatim>\<open>null\<close>.\<close>

definition get :: "'v LRUCache \<Rightarrow> string \<Rightarrow> int \<Rightarrow> 'v LRUCache \<times> 'v option" where
  "get s k now =
     (case map_of (cache s) k of
        None \<Rightarrow> (s\<lparr>stats := (stats s)\<lparr>misses := misses (stats s) + 1\<rparr>\<rparr>, None)
      | Some a \<Rightarrow>
          (case heap s a of
             None \<Rightarrow> (s, None)
           | Some node \<Rightarrow>
               if isExpired s node now then
                 (let s1 = drop_entry s k a
                  in (s1\<lparr>stats := (stats s1)\<lparr>misses := misses (stats s1) + 1\<rparr>\<rparr>, None))
               else
                 (let s1 = s\<lparr>stats := (stats s)\<lparr>hits := hits (stats s) + 1\<rparr>\<rparr>
                  in (moveToHead s1 a, Some (val node)))))"

text \<open>\<^verbatim>\<open>set(key, value)\<close> at time \<open>now\<close>.\<close>

definition set_c :: "'v LRUCache \<Rightarrow> string \<Rightarrow> 'v \<Rightarrow> int \<Rightarrow> 'v LRUCache" where
  "set_c s k v now =
     (case map_of (cache s) k of
        Some a \<Rightarrow>
          moveToHead (s\<lparr>heap := assign (heap s) a (\<lambda>n. n\<lparr>val := v, timestamp := now\<rparr>)\<rparr>) a
      | None \<Rightarrow>
          (let a = allocated s;
               newNode = \<lparr>key = k, val = v, timestamp = now, prev = None, nxt = None\<rparr>;
               s1 = s\<lparr>heap := (heap s)(a \<mapsto> newNode), allocated := a + 1\<rparr>;
               s2 = s1\<lparr>cache := AList.update k a (cache s1)\<rparr>;
               s3 = addToHead s2 a;
               s4 = s3\<lparr>stats := (stats s3)\<lparr>size_c := size_c (stats s3) + 1\<rparr>\<rparr>
           in if size_c (stats s4) > capacity s4 then evictLRU s4 else s4))"

definition has :: "'v LRUCache \<Rightarrow> string \<Rightarrow> int \<Rightarrow> 'v LRUCache \<times> bool" where
  "has s k now =
     (case map_of (cache s) k of
        None \<Rightarrow> (s, False)
      | Some a \<Rightarrow>
          (case heap s a of
             None \<Rightarrow> (s, False)
           | Some node \<Rightarrow>
               if isExpired s node now then (drop_entry s k a, False) else (s, True)))"

definition clear :: "'v LRUCache \<Rightarrow> 'v LRUCache" where
  "clear s = s\<lparr>cache := [], head := None, tail := None, stats := (stats s)\<lparr>size_c := 0\<rparr>\<rparr>"

definition getStats :: "'v LRUCache \<Rightarrow> CacheStats" where
  "getStats s = stats s"

text \<open>
  \<^verbatim>\<open>cleanupStaleEntries\<close>: first the keys of the stale entries are collected, in the order of
  the map, then each key that is still in the map is removed.
\<close>

definition keysToDelete :: "'v LRUCache \<Rightarrow> int \<Rightarrow> string list" where
  "keysToDelete s now =
     map fst (filter (\<lambda>(k, a). case heap s a of
                                   None \<Rightarrow> False
                                 | Some node \<Rightarrow> now - timestamp node > ttl s) (cache s))"

definition cleanup_key :: "'v LRUCache \<Rightarrow> string \<Rightarrow> 'v LRUCache" where
  "cleanup_key s k = (case map_of (cache s) k of None \<Rightarrow> s | Some a \<Rightarrow> drop_entry s k a)"

definition cleanupStaleEntries :: "'v LRUCache \<Rightarrow> int \<Rightarrow> 'v LRUCache" where
  "cleanupStaleEntries s now = foldl cleanup_key s (keysToDelete s now)"

definition destroy :: "'v LRUCache \<Rightarrow> 'v LRUCache" where
  "destroy s = clear (s\<lparr>cleanupInterval := False\<rparr>)"

text \<open>
  The public operations, and the background task, which runs when its timer fires and has
  not been cleared. An operation comes with the time at which it runs.
\<close>

datatype 'v operation =
  Get string | Set string 'v | Has string | Clear | GetStats | Destroy | Timer

fun apply_op :: "'v LRUCache \<Rightarrow> 'v operation \<times> int \<Rightarrow> 'v LRUCache" where
  "apply_op s (Get k, now) = fst (get s k now)"
| "apply_op s (Set k v, now) = set_c s k v now"
| "apply_op s (Has k, now) = fst (has s k now)"
| "apply_op s (Clear, now) = clear s"
| "apply_op s (GetStats, now) = s"
| "apply_op s (Destroy, now) = destroy s"
| "apply_op s (Timer, now) = (if cleanupInterval s then cleanupStaleEntries s now else s)"

definition apply_ops :: "'v LRUCache \<Rightarrow> ('v operation \<times> int) list \<Rightarrow> 'v LRUCache" where
  "apply_ops s ops = foldl apply_op s ops"

text \<open>The keys of the linked list from \<^verbatim>\<open>head\<close> along \<^verbatim>\<open>next\<close>, at most \<open>n\<close> of them.\<close>

fun keys_from :: "(nat \<rightharpoonup> 'v CacheNode) \<Rightarrow> nat option \<Rightarrow> nat \<Rightarrow> string list" where
  "keys_from h None n = []"
| "keys_from h (Some a) 0 = []"
| "keys_from h (Some a) (Suc n) =
     (case h a of None \<Rightarrow> [] | Some node \<Rightarrow> key node # keys_from h (nxt node) n)"

definition recency :: "'v LRUCache \<Rightarrow> string list" where
  "recency s = keys_from (heap s) (head s) (length (cache s))"


text \<open>
  The list of addresses that the linked list is meant to hold, from the head to the tail,
  determines every link: \<open>pred_in as b\<close> is the element before \<open>b\<close> and \<open>succ_in as a\<close> the
  element after \<open>a\<close>, \<open>None\<close> at the two ends.
\<close>

fun pred_in :: "nat list \<Rightarrow> nat \<Rightarrow> nat option" where
  "pred_in [] b = None"
| "pred_in [x] b = None"
| "pred_in (x # y # ys) b = (if b = y then Some x else pred_in (y # ys) b)"

fun succ_in :: "nat list \<Rightarrow> nat \<Rightarrow> nat option" where
  "succ_in [] a = None"
| "succ_in [x] a = None"
| "succ_in (x # y # ys) a = (if a = x then Some y else succ_in (y # ys) a)"

definition first_opt :: "nat list \<Rightarrow> nat option" where
  "first_opt as = (case as of [] \<Rightarrow> None | a # _ \<Rightarrow> Some a)"

definition last_opt :: "nat list \<Rightarrow> nat option" where
  "last_opt as = (if as = [] then None else Some (last as))"

text \<open>
  The store holds the doubly linked list \<open>as\<close> between \<open>first\<close> and \<open>final\<close>: the two ends are
  right and every node has the \<^verbatim>\<open>prev\<close> and \<^verbatim>\<open>next\<close> that the list gives it.
\<close>

definition linked :: "(nat \<rightharpoonup> 'v CacheNode) \<Rightarrow> nat option \<Rightarrow> nat option \<Rightarrow> nat list \<Rightarrow> bool" where
  "linked h first final as \<longleftrightarrow>
     first = first_opt as \<and> final = last_opt as
     \<and> (\<forall>a \<in> set as. \<exists>node. h a = Some node \<and> prev node = pred_in as a \<and> nxt node = succ_in as a)"

text \<open>
  What a node holds apart from its links.
\<close>

definition data_of :: "(nat \<rightharpoonup> 'v CacheNode) \<Rightarrow> nat \<Rightarrow> (string \<times> 'v \<times> int) option" where
  "data_of h a = map_option (\<lambda>n. (key n, val n, timestamp n)) (h a)"

text \<open>
  The representation invariant of the cache for the recency list \<open>as\<close>: the linked list is
  \<open>as\<close>, its nodes are exactly the nodes of the map, no key and no node occurs twice, every
  node of the map carries the key it is stored under, \<^verbatim>\<open>stats.size\<close> is the number of
  entries, and every object lies below the next address to be allocated.
\<close>

definition lru_inv :: "'v LRUCache \<Rightarrow> nat list \<Rightarrow> bool" where
  "lru_inv s as \<longleftrightarrow>
     linked (heap s) (head s) (tail s) as \<and> distinct as
     \<and> distinct (map fst (cache s)) \<and> set as = snd ` set (cache s)
     \<and> length as = length (cache s)
     \<and> (\<forall>(k, a) \<in> set (cache s). \<exists>node. heap s a = Some node \<and> key node = k)
     \<and> size_c (stats s) = int (length (cache s))
     \<and> (\<forall>a. heap s a \<noteq> None \<longrightarrow> a < allocated s)"

text \<open>
  The keys of the nodes at the addresses \<open>as\<close>.
\<close>

definition keys_at :: "(nat \<rightharpoonup> 'v CacheNode) \<Rightarrow> nat list \<Rightarrow> string list" where
  "keys_at h as = map (\<lambda>a. case h a of None \<Rightarrow> [] | Some node \<Rightarrow> key node) as"

text \<open>
  The state of \<^verbatim>\<open>set\<close> for a new key just before the check of the capacity: the node is
  created, put into the map and at the head of the list, and \<^verbatim>\<open>stats.size\<close> is incremented.
\<close>

definition inserted :: "'v LRUCache \<Rightarrow> string \<Rightarrow> 'v \<Rightarrow> int \<Rightarrow> 'v LRUCache" where
  "inserted s k v now =
     (let a = allocated s;
          s2 = s\<lparr>heap := (heap s)(a \<mapsto> \<lparr>key = k, val = v, timestamp = now, prev = None, nxt = None\<rparr>),
                 allocated := a + 1, cache := AList.update k a (cache s)\<rparr>;
          s3 = addToHead s2 a
      in s3\<lparr>stats := (stats s3)\<lparr>size_c := size_c (stats s3) + 1\<rparr>\<rparr>)"

text \<open>The invariant of the reachable states, and the bound on the size.\<close>

definition lru_ok :: "'v LRUCache \<Rightarrow> bool" where
  "lru_ok s \<longleftrightarrow> (\<exists>as. lru_inv s as) \<and> size_c (stats s) \<le> max 0 (capacity s)"

text \<open>
  The entries of the map that are not expired at time \<open>now\<close>.
\<close>

definition live_entries :: "'v LRUCache \<Rightarrow> int \<Rightarrow> (string \<times> nat) list" where
  "live_entries s now =
     filter (\<lambda>(k, a). case heap s a of None \<Rightarrow> False | Some node \<Rightarrow> \<not> isExpired s node now) (cache s)"

text \<open>
  A sequence of \<^verbatim>\<open>set\<close> calls, each given by its key, its value and its time.
\<close>

definition sets :: "(string \<times> 'v \<times> int) list \<Rightarrow> ('v operation \<times> int) list" where
  "sets kvs = map (\<lambda>(k, v, now). (Set k v, now)) kvs"

text \<open>
  \<^verbatim>\<open>this.cache.get(key)\<close>: the node stored under a key.
\<close>

definition cache_get :: "'v LRUCache \<Rightarrow> string \<Rightarrow> 'v CacheNode option" where
  "cache_get s k = (case map_of (cache s) k of None \<Rightarrow> None | Some a \<Rightarrow> heap s a)"

section \<open>Properties of the rate limiter\<close>

lemma ceil_div_1000_ceiling: "ceil_div_1000 x = \<lceil>real_of_int x / 1000\<rceil>"
proof -
  have "\<lfloor>real_of_int (- x) / real_of_int 1000\<rfloor> = (- x) div 1000"
    by (rule floor_divide_of_int_eq)
  then show ?thesis
    by (simp add: ceil_div_1000_def ceiling_def)
qed

lemma middleware_burst:
  assumes "burstRequests (config s) \<le> int (length (filter (\<lambda>t. now - t < burstWindowMs (config s)) (burstTimes (client_record s c))))"
  shows "middleware s c now =
     (s\<lparr>clients := (clients s)(c \<mapsto> \<lparr>requests = filter (\<lambda>t. now - t < windowMs (config s)) (requests (client_record s c)),
            burstTimes = filter (\<lambda>t. now - t < burstWindowMs (config s)) (burstTimes (client_record s c))\<rparr>)\<rparr>,
      TooManyRequests BurstLimit (retryAfter (filter (\<lambda>t. now - t < burstWindowMs (config s)) (burstTimes (client_record s c))) (burstWindowMs (config s)) now))"
  using assms by (simp add: middleware_def Let_def)

lemma middleware_rate:
  assumes "\<not> burstRequests (config s) \<le> int (length (filter (\<lambda>t. now - t < burstWindowMs (config s)) (burstTimes (client_record s c))))"
    and "maxRequests (config s) \<le> int (length (filter (\<lambda>t. now - t < windowMs (config s)) (requests (client_record s c))))"
  shows "middleware s c now =
     (s\<lparr>clients := (clients s)(c \<mapsto> \<lparr>requests = filter (\<lambda>t. now - t < windowMs (config s)) (requests (client_record s c)),
            burstTimes = filter (\<lambda>t. now - t < burstWindowMs (config s)) (burstTimes (client_record s c))\<rparr>)\<rparr>,
      TooManyRequests RateLimit (retryAfter (filter (\<lambda>t. now - t < windowMs (config s)) (requests (client_record s c))) (windowMs (config s)) now))"
  using assms by (simp add: middleware_def Let_def)

lemma middleware_next:
  assumes "\<not> burstRequests (config s) \<le> int (length (filter (\<lambda>t. now - t < burstWindowMs (config s)) (burstTimes (client_record s c))))"
    and "\<not> maxRequests (config s) \<le> int (length (filter (\<lambda>t. now - t < windowMs (config s)) (requests (client_record s c))))"
  shows "middleware s c now =
     (s\<lparr>clients := (clients s)(c \<mapsto> \<lparr>requests = filter (\<lambda>t. now - t < windowMs (config s)) (requests (client_record s c)) @ [now],
            burstTimes = filter (\<lambda>t. now - t < burstWindowMs (config s)) (burstTimes (client_record s c)) @ [now]\<rparr>)\<rparr>,
      Next)"
  using assms by (simp add: middleware_def Let_def)

lemma retryAfter_Cons:
  "retryAfter (t0 # ts) w now = Some \<lceil>real_of_int (t0 + w - now) / 1000\<rceil>"
  by (simp add: retryAfter_def ceil_div_1000_ceiling)

lemma client_record_middleware:
  "client_record (fst (middleware s c now)) c' =
     (if c' = c then
        (if snd (middleware s c now) = Next then
           \<lparr>requests = filter (\<lambda>t. now - t < windowMs (config s)) (requests (client_record s c)) @ [now],
            burstTimes = filter (\<lambda>t. now - t < burstWindowMs (config s)) (burstTimes (client_record s c)) @ [now]\<rparr>
         else
           \<lparr>requests = filter (\<lambda>t. now - t < windowMs (config s)) (requests (client_record s c)),
            burstTimes = filter (\<lambda>t. now - t < burstWindowMs (config s)) (burstTimes (client_record s c))\<rparr>)
      else client_record s c')"
  by (simp add: middleware_def Let_def client_record_def)

lemma client_record_cleanup:
  "client_record (cleanup s now) c =
     \<lparr>requests = filter (\<lambda>t. now - t < windowMs (config s)) (requests (client_record s c)),
      burstTimes = filter (\<lambda>t. now - t < burstWindowMs (config s)) (burstTimes (client_record s c))\<rparr>"
  by (simp add: cleanup_def client_record_def Let_def split: option.splits)

lemma limiter_run_snoc: "limiter_run s (evs @ [ev]) = limiter_step (limiter_run s evs) ev"
  by (simp add: limiter_run_def)

lemma config_limiter_step: "config (limiter_step s ev) = config s"
  by (cases ev) (simp_all add: limiter_step_def middleware_def cleanup_def Let_def)

lemma config_limiter_run: "config (limiter_run s evs) = config s"
  by (induction evs rule: rev_induct) (simp_all add: limiter_run_snoc config_limiter_step, simp add: limiter_run_def)

lemma request_times_snoc:
  "request_times c (evs @ [ev]) =
     request_times c evs @ (case ev of Request c' now \<Rightarrow> if c' = c then [now] else [] | Cleanup now \<Rightarrow> [])"
  by (induction c evs rule: request_times.induct) (simp_all split: limiter_event.splits)

text \<open>
  The two sequences of a client hold clock readings of its requests, in the order of the
  requests.
\<close>

lemma reached_subseq:
  "subseq (requests (client_record (limiter_run (RateLimiter_new cfg) evs) c)) (request_times c evs)
   \<and> subseq (burstTimes (client_record (limiter_run (RateLimiter_new cfg) evs) c)) (request_times c evs)"
proof (induction evs rule: rev_induct)
  case Nil
  show ?case by (simp add: limiter_run_def RateLimiter_new_def client_record_def)
next
  case (snoc ev evs)
  let ?s = "limiter_run (RateLimiter_new cfg) evs"
  have r: "subseq (requests (client_record ?s c)) (request_times c evs)"
    and b: "subseq (burstTimes (client_record ?s c)) (request_times c evs)"
    using snoc by simp_all
  have fr: "subseq (filter P (requests (client_record ?s c))) (request_times c evs)" for P
    using subseq_filter_left r by (rule subseq_order.trans)
  have fb: "subseq (filter P (burstTimes (client_record ?s c))) (request_times c evs)" for P
    using subseq_filter_left b by (rule subseq_order.trans)
  show ?case
  proof (cases ev)
    case (Cleanup now)
    then show ?thesis
      using fr fb by (simp add: limiter_run_snoc limiter_step_def request_times_snoc client_record_cleanup)
  next
    case (Request c' now)
    show ?thesis
    proof (cases "c' = c")
      case False
      then show ?thesis
        using r b Request
        by (simp add: limiter_run_snoc limiter_step_def request_times_snoc client_record_middleware)
    next
      case True
      have ext: "subseq xs (request_times c evs) \<Longrightarrow> subseq xs (request_times c evs @ [now])" for xs
        by (rule subseq_rev_drop_many)
      show ?thesis
        using fr fb True Request
        by (simp add: limiter_run_snoc limiter_step_def request_times_snoc client_record_middleware ext)
    qed
  qed
qed

lemma subseq_sorted:
  "subseq xs ys \<Longrightarrow> sorted ys \<Longrightarrow> sorted (xs :: int list)"
proof (induction rule: list_emb.induct)
  case (list_emb_Nil ys) then show ?case by simp
next
  case (list_emb_Cons xs ys y) then show ?case by simp
next
  case (list_emb_Cons2 x y xs ys)
  have "set xs \<subseteq> set ys" using list_emb_Cons2.hyps(2) by (auto elim: list_emb_set)
  then show ?case using list_emb_Cons2 by auto
qed

lemma sorted_hd_least:
  assumes "sorted ts" "t \<in> set ts"
  shows "hd ts \<le> (t::int)"
  using assms by (cases ts) auto

text \<open>
  Claim C3 (admission tie-break and retry computation), as the code has it. Let the limiter
  be in a state reached from a new one by any requests and cleanup runs, and let \<open>bursts\<close>
  and \<open>reqs\<close> be the two sequences of the client after pruning. Whenever the burst sequence
  has reached \<open>burstRequests\<close>, the request is denied as burst-limited, whatever the sustained
  sequence holds, so a client over both quotas is reported as burst-limited; the sustained
  limit is reported only when the burst check passed. A denial carries
  \<open>\<lceil>(first surviving timestamp + window - now) / 1000\<rceil>\<close> of the sequence that was hit. The
  sequences hold clock readings of the client's requests in the order of the requests, so
  the first surviving timestamp is the one of the earliest request that survives; it is the
  oldest one when the clock readings of the client's requests never decrease. A denial finds
  a surviving timestamp whenever the quota is positive; with a quota of zero or less and an
  empty sequence the source computes \<^verbatim>\<open>NaN\<close> (\<open>None\<close>).
\<close>

theorem tie_break_and_retry:
  assumes reach: "s = limiter_run (RateLimiter_new cfg) evs"
      and bursts: "bursts = filter (\<lambda>t. now - t < burstWindowMs cfg) (burstTimes (client_record s c))"
      and reqs: "reqs = filter (\<lambda>t. now - t < windowMs cfg) (requests (client_record s c))"
  shows "(burstRequests cfg \<le> int (length bursts) \<longrightarrow>
            snd (middleware s c now) = TooManyRequests BurstLimit
              (case bursts of [] \<Rightarrow> None
               | b0 # _ \<Rightarrow> Some \<lceil>real_of_int (b0 + burstWindowMs cfg - now) / 1000\<rceil>))
       \<and> (int (length bursts) < burstRequests cfg \<and> maxRequests cfg \<le> int (length reqs) \<longrightarrow>
            snd (middleware s c now) = TooManyRequests RateLimit
              (case reqs of [] \<Rightarrow> None
               | r0 # _ \<Rightarrow> Some \<lceil>real_of_int (r0 + windowMs cfg - now) / 1000\<rceil>))
       \<and> subseq bursts (request_times c evs) \<and> subseq reqs (request_times c evs)
       \<and> (sorted (request_times c evs) \<longrightarrow>
            (\<forall>t \<in> set bursts. hd bursts \<le> t) \<and> (\<forall>t \<in> set reqs. hd reqs \<le> t))
       \<and> (0 < burstRequests cfg \<and> burstRequests cfg \<le> int (length bursts) \<longrightarrow> bursts \<noteq> [])
       \<and> (0 < maxRequests cfg \<and> maxRequests cfg \<le> int (length reqs) \<longrightarrow> reqs \<noteq> [])"
proof -
  have cfg: "config s = cfg"
    unfolding reach by (simp add: config_limiter_run RateLimiter_new_def)
  have sb: "subseq bursts (request_times c evs)"
    unfolding bursts reach
    using subseq_filter_left reached_subseq[THEN conjunct2] by (rule subseq_order.trans)
  have sr: "subseq reqs (request_times c evs)"
    unfolding reqs reach
    using subseq_filter_left reached_subseq[THEN conjunct1] by (rule subseq_order.trans)
  have burst: "snd (middleware s c now) = TooManyRequests BurstLimit
              (case bursts of [] \<Rightarrow> None
               | b0 # _ \<Rightarrow> Some \<lceil>real_of_int (b0 + burstWindowMs cfg - now) / 1000\<rceil>)"
    if "burstRequests cfg \<le> int (length bursts)"
    using that cfg unfolding bursts
    by (simp add: middleware_burst retryAfter_def ceil_div_1000_ceiling split: list.splits)
  have rate: "snd (middleware s c now) = TooManyRequests RateLimit
              (case reqs of [] \<Rightarrow> None
               | r0 # _ \<Rightarrow> Some \<lceil>real_of_int (r0 + windowMs cfg - now) / 1000\<rceil>)"
    if "int (length bursts) < burstRequests cfg \<and> maxRequests cfg \<le> int (length reqs)"
    using that cfg unfolding bursts reqs
    by (simp add: middleware_rate retryAfter_def ceil_div_1000_ceiling split: list.splits)
  have oldest: "(\<forall>t \<in> set bursts. hd bursts \<le> t) \<and> (\<forall>t \<in> set reqs. hd reqs \<le> t)"
    if "sorted (request_times c evs)"
  proof -
    have "sorted bursts" using sb that by (rule subseq_sorted)
    moreover have "sorted reqs" using sr that by (rule subseq_sorted)
    ultimately show ?thesis by (simp add: sorted_hd_least)
  qed
  have ne: "0 < q \<and> q \<le> int (length ts) \<longrightarrow> ts \<noteq> []" for q and ts :: "int list"
    by auto
  show ?thesis
    using burst rate sb sr oldest ne[of "burstRequests cfg" bursts] ne[of "maxRequests cfg" reqs]
    by blast
qed

text \<open>
  The theorem on the limiter of \<^verbatim>\<open>index.ts\<close>, for a client that made five requests in
  the first five milliseconds and five more from 10000 to 10004, with a cleanup run and the
  request of another client in between. At 10005 the client is over both quotas: ten
  requests in the last minute, five of them in the last ten seconds, the oldest of these at
  10000. The denial is the burst one, with \<open>\<lceil>(10000 + 10000 - 10005) / 1000\<rceil> = 10\<close>.
\<close>

theorem tie_break_and_retry_witness:
  "snd (middleware
         (limiter_run limiter_index
            [Request ''10.0.0.1'' 0, Request ''10.0.0.1'' 1, Request ''10.0.0.1'' 2,
             Request ''10.0.0.1'' 3, Request ''10.0.0.1'' 4, Cleanup 5000, Request ''10.0.0.2'' 6000,
             Request ''10.0.0.1'' 10000, Request ''10.0.0.1'' 10001, Request ''10.0.0.1'' 10002,
             Request ''10.0.0.1'' 10003, Request ''10.0.0.1'' 10004])
         ''10.0.0.1'' 10005)
     = TooManyRequests BurstLimit (Some 10)
   \<and> requests (client_record
         (limiter_run limiter_index
            [Request ''10.0.0.1'' 0, Request ''10.0.0.1'' 1, Request ''10.0.0.1'' 2,
             Request ''10.0.0.1'' 3, Request ''10.0.0.1'' 4, Cleanup 5000, Request ''10.0.0.2'' 6000,
             Request ''10.0.0.1'' 10000, Request ''10.0.0.1'' 10001, Request ''10.0.0.1'' 10002,
             Request ''10.0.0.1'' 10003, Request ''10.0.0.1'' 10004]) ''10.0.0.1'')
     = [0, 1, 2, 3, 4, 10000, 10001, 10002, 10003, 10004]
   \<and> burstTimes (client_record
         (limiter_run limiter_index
            [Request ''10.0.0.1'' 0, Request ''10.0.0.1'' 1, Request ''10.0.0.1'' 2,
             Request ''10.0.0.1'' 3, Request ''10.0.0.1'' 4, Cleanup 5000, Request ''10.0.0.2'' 6000,
             Request ''10.0.0.1'' 10000, Request ''10.0.0.1'' 10001, Request ''10.0.0.1'' 10002,
             Request ''10.0.0.1'' 10003, Request ''10.0.0.1'' 10004]) ''10.0.0.1'')
     = [10000, 10001, 10002, 10003, 10004]"
  using tie_break_and_retry
    [OF _ refl refl,
     where cfg = "\<lparr>maxRequests = 10, windowMs = 60000, burstRequests = 5, burstWindowMs = 10000\<rparr>"
       and evs = "[Request ''10.0.0.1'' 0, Request ''10.0.0.1'' 1, Request ''10.0.0.1'' 2,
             Request ''10.0.0.1'' 3, Request ''10.0.0.1'' 4, Cleanup 5000, Request ''10.0.0.2'' 6000,
             Request ''10.0.0.1'' 10000, Request ''10.0.0.1'' 10001, Request ''10.0.0.1'' 10002,
             Request ''10.0.0.1'' 10003, Request ''10.0.0.1'' 10004]"
       and s = "limiter_run limiter_index
            [Request ''10.0.0.1'' 0, Request ''10.0.0.1'' 1, Request ''10.0.0.1'' 2,
             Request ''10.0.0.1'' 3, Request ''10.0.0.1'' 4, Cleanup 5000, Request ''10.0.0.2'' 6000,
             Request ''10.0.0.1'' 10000, Request ''10.0.0.1'' 10001, Request ''10.0.0.1'' 10002,
             Request ''10.0.0.1'' 10003, Request ''10.0.0.1'' 10004]"
       and c = "''10.0.0.1''" and now = 10005]
  by (simp add: limiter_index_def limiter_run_def limiter_step_def RateLimiter_new_def
        middleware_def cleanup_def client_record_def retryAfter_def ceil_div_1000_def Let_def)

text \<open>
  Claim C3 as stated fails when the clock is set back between two requests. On the limiter
  of \<^verbatim>\<open>index.ts\<close> a client makes requests at the clock readings 5000, 1000, 1200, 1400 and
  1600, all let through, and one at 2000. The burst sequence is in the order of the requests,
  its first timestamp is 5000, and the denial carries \<open>\<lceil>(5000 + 10000 - 2000) / 1000\<rceil> = 13\<close>;
  the oldest surviving timestamp is 1000, which gives 9.
\<close>

theorem retry_from_first_not_oldest:
  "let s = limiter_run limiter_index
             [Request ''10.0.0.1'' 5000, Request ''10.0.0.1'' 1000, Request ''10.0.0.1'' 1200,
              Request ''10.0.0.1'' 1400, Request ''10.0.0.1'' 1600]
   in filter (\<lambda>t. 2000 - t < burstWindowMs (config s)) (burstTimes (client_record s ''10.0.0.1''))
        = [5000, 1000, 1200, 1400, 1600]
      \<and> snd (middleware s ''10.0.0.1'' 2000) = TooManyRequests BurstLimit (Some 13)
      \<and> Min (set [5000, 1000, 1200, 1400, 1600]) = (1000 :: int)
      \<and> \<lceil>real_of_int (1000 + burstWindowMs (config s) - 2000) / 1000\<rceil> = (9 :: int)"
  by (simp add: limiter_index_def limiter_run_def limiter_step_def RateLimiter_new_def
        middleware_def client_record_def retryAfter_def ceil_div_1000_def Let_def)

lemma middleware_allows:
  assumes "burstTimes (client_record s c) = bs"
    and "\<forall>t \<in> set bs. now - t < burstWindowMs (config s)"
    and "int (length bs) < burstRequests (config s)"
    and "int (length (requests (client_record s c))) < maxRequests (config s)"
  shows "snd (middleware s c now) = Next
       \<and> burstTimes (client_record (fst (middleware s c now)) c) = bs @ [now]
       \<and> length (requests (client_record (fst (middleware s c now)) c))
            \<le> length (requests (client_record s c)) + 1
       \<and> config (fst (middleware s c now)) = config s"
proof -
  have b: "filter (\<lambda>t. now - t < burstWindowMs (config s)) (burstTimes (client_record s c)) = bs"
    using assms(1,2) by simp
  have "length (filter (\<lambda>t. now - t < windowMs (config s)) (requests (client_record s c)))
          \<le> length (requests (client_record s c))"
    by simp
  then have r: "\<not> maxRequests (config s)
          \<le> int (length (filter (\<lambda>t. now - t < windowMs (config s)) (requests (client_record s c))))"
    using assms(4) by linarith
  have m: "middleware s c now =
     (s\<lparr>clients := (clients s)(c \<mapsto>
          \<lparr>requests = filter (\<lambda>t. now - t < windowMs (config s)) (requests (client_record s c)) @ [now],
           burstTimes = bs @ [now]\<rparr>)\<rparr>, Next)"
    using middleware_next[of s now c] assms(3) b r by simp
  show ?thesis
    by (simp add: m client_record_def)
qed

lemma middleware_appends:
  "(snd (middleware s c now) = Next \<longrightarrow>
      client_record (fst (middleware s c now)) c =
        \<lparr>requests = filter (\<lambda>t. now - t < windowMs (config s)) (requests (client_record s c)) @ [now],
         burstTimes = filter (\<lambda>t. now - t < burstWindowMs (config s)) (burstTimes (client_record s c)) @ [now]\<rparr>)
   \<and> (snd (middleware s c now) \<noteq> Next \<longrightarrow>
      client_record (fst (middleware s c now)) c =
        \<lparr>requests = filter (\<lambda>t. now - t < windowMs (config s)) (requests (client_record s c)),
         burstTimes = filter (\<lambda>t. now - t < burstWindowMs (config s)) (burstTimes (client_record s c))\<rparr>)"
  by (simp add: middleware_def Let_def client_record_def)

lemma requests_at_snoc:
  "requests_at s c (nows @ [now]) =
     (fst (middleware (fst (requests_at s c nows)) c now),
      snd (requests_at s c nows) @ [snd (middleware (fst (requests_at s c nows)) c now)])"
  by (induction nows arbitrary: s) (simp_all add: split_beta)

text \<open>
  Claim C9 (admission ordering). With \<open>burstRequests = 5\<close> and \<open>burstWindowMs = 10000\<close>
  (and a sustained quota of at least five), six requests of a new client at times
  \<open>t1 \<le> ... \<le> t6\<close> less than ten seconds apart are answered by five times \<^verbatim>\<open>next()\<close>
  and then a burst denial; a seventh request at least ten seconds after the fifth one, made
  while the pruned sustained sequence is below \<open>maxRequests\<close>, is let through again.
  Every request that is let through appends \<open>now\<close> to both pruned sequences; a denied one
  stores the pruned sequences and appends nothing.
\<close>

theorem admission_ordering:
  assumes cfg: "burstRequests (config s) = 5" "burstWindowMs (config s) = 10000"
      and quota: "5 \<le> maxRequests (config s)"
      and fresh: "clients s c = None"
      and order: "t1 \<le> t2" "t2 \<le> t3" "t3 \<le> t4" "t4 \<le> t5" "t5 \<le> t6"
      and within: "t6 - t1 < 10000"
      and elapsed: "t5 + 10000 \<le> t7"
      and under: "int (length (filter (\<lambda>t. t7 - t < windowMs (config s))
                    (requests (client_record (fst (requests_at s c [t1, t2, t3, t4, t5, t6])) c))))
                  < maxRequests (config s)"
  shows "snd (requests_at s c [t1, t2, t3, t4, t5, t6, t7]) =
           [Next, Next, Next, Next, Next,
            TooManyRequests BurstLimit (Some \<lceil>real_of_int (t1 + 10000 - t6) / 1000\<rceil>),
            Next]
       \<and> (\<forall>s' c' now.
            (snd (middleware s' c' now) = Next \<longrightarrow>
               client_record (fst (middleware s' c' now)) c' =
                 \<lparr>requests = filter (\<lambda>t. now - t < windowMs (config s')) (requests (client_record s' c')) @ [now],
                  burstTimes = filter (\<lambda>t. now - t < burstWindowMs (config s')) (burstTimes (client_record s' c')) @ [now]\<rparr>)
          \<and> (snd (middleware s' c' now) \<noteq> Next \<longrightarrow>
               client_record (fst (middleware s' c' now)) c' =
                 \<lparr>requests = filter (\<lambda>t. now - t < windowMs (config s')) (requests (client_record s' c')),
                  burstTimes = filter (\<lambda>t. now - t < burstWindowMs (config s')) (burstTimes (client_record s' c'))\<rparr>))"
proof -
  define s1 where "s1 = fst (middleware s c t1)"
  define s2 where "s2 = fst (middleware s1 c t2)"
  define s3 where "s3 = fst (middleware s2 c t3)"
  define s4 where "s4 = fst (middleware s3 c t4)"
  define s5 where "s5 = fst (middleware s4 c t5)"
  define s6 where "s6 = fst (middleware s5 c t6)"
  have r0: "burstTimes (client_record s c) = []" "length (requests (client_record s c)) = 0"
    using fresh by (simp_all add: client_record_def)
  have a1: "snd (middleware s c t1) = Next \<and> burstTimes (client_record s1 c) = [t1]
          \<and> length (requests (client_record s1 c)) \<le> 1 \<and> config s1 = config s"
    using middleware_allows[of s c "[]" t1] r0 cfg quota unfolding s1_def by simp
  have a2: "snd (middleware s1 c t2) = Next \<and> burstTimes (client_record s2 c) = [t1, t2]
          \<and> length (requests (client_record s2 c)) \<le> 2 \<and> config s2 = config s"
    using middleware_allows[of s1 c "[t1]" t2] a1 cfg quota order within unfolding s2_def by simp
  have a3: "snd (middleware s2 c t3) = Next \<and> burstTimes (client_record s3 c) = [t1, t2, t3]
          \<and> length (requests (client_record s3 c)) \<le> 3 \<and> config s3 = config s"
    using middleware_allows[of s2 c "[t1, t2]" t3] a2 cfg quota order within unfolding s3_def by simp
  have a4: "snd (middleware s3 c t4) = Next \<and> burstTimes (client_record s4 c) = [t1, t2, t3, t4]
          \<and> length (requests (client_record s4 c)) \<le> 4 \<and> config s4 = config s"
    using middleware_allows[of s3 c "[t1, t2, t3]" t4] a3 cfg quota order within unfolding s4_def by simp
  have a5: "snd (middleware s4 c t5) = Next \<and> burstTimes (client_record s5 c) = [t1, t2, t3, t4, t5]
          \<and> length (requests (client_record s5 c)) \<le> 5 \<and> config s5 = config s"
    using middleware_allows[of s4 c "[t1, t2, t3, t4]" t5] a4 cfg quota order within unfolding s5_def by simp
  have f6: "filter (\<lambda>t. t6 - t < burstWindowMs (config s5)) (burstTimes (client_record s5 c))
              = [t1, t2, t3, t4, t5]"
    using a5 cfg order within by simp
  have m6: "middleware s5 c t6 =
     (s5\<lparr>clients := (clients s5)(c \<mapsto>
          \<lparr>requests = filter (\<lambda>t. t6 - t < windowMs (config s5)) (requests (client_record s5 c)),
           burstTimes = [t1, t2, t3, t4, t5]\<rparr>)\<rparr>,
      TooManyRequests BurstLimit (retryAfter [t1, t2, t3, t4, t5] (burstWindowMs (config s5)) t6))"
    using middleware_burst[of s5 t6 c] f6 a5 cfg by simp
  have a6: "snd (middleware s5 c t6)
              = TooManyRequests BurstLimit (Some \<lceil>real_of_int (t1 + 10000 - t6) / 1000\<rceil>)"
           "burstTimes (client_record s6 c) = [t1, t2, t3, t4, t5]" "config s6 = config s"
    using a5 cfg by (simp_all add: m6 s6_def retryAfter_Cons client_record_def)
  have run6: "requests_at s c [t1, t2, t3, t4, t5, t6] =
                (s6, [Next, Next, Next, Next, Next, snd (middleware s5 c t6)])"
    using a1 a2 a3 a4 a5
    by (simp add: split_beta s1_def s2_def s3_def s4_def s5_def s6_def)
  have f7: "filter (\<lambda>t. t7 - t < burstWindowMs (config s6)) (burstTimes (client_record s6 c)) = []"
    using a6 cfg order elapsed by simp
  have u7: "\<not> maxRequests (config s6)
              \<le> int (length (filter (\<lambda>t. t7 - t < windowMs (config s6)) (requests (client_record s6 c))))"
    using under a6(3) unfolding run6 by simp
  have a7: "snd (middleware s6 c t7) = Next"
    using middleware_next[of s6 t7 c] f7 u7 a6(3) cfg by simp
  have "requests_at s c ([t1, t2, t3, t4, t5, t6] @ [t7]) =
          (fst (middleware s6 c t7), [Next, Next, Next, Next, Next, snd (middleware s5 c t6)] @ [Next])"
    unfolding requests_at_snoc run6 using a7 by simp
  then have "snd (requests_at s c [t1, t2, t3, t4, t5, t6, t7]) =
           [Next, Next, Next, Next, Next,
            TooManyRequests BurstLimit (Some \<lceil>real_of_int (t1 + 10000 - t6) / 1000\<rceil>),
            Next]"
    using a6(1) by simp
  then show ?thesis
    using middleware_appends by blast
qed

text \<open>The theorem on the limiter of \<^verbatim>\<open>index.ts\<close>, at the times 0, 1, 2, 3, 4, 5 and 14 seconds.\<close>

theorem admission_ordering_witness:
  "snd (requests_at limiter_index ''10.0.0.1'' [0, 1000, 2000, 3000, 4000, 5000, 14000]) =
     [Next, Next, Next, Next, Next, TooManyRequests BurstLimit (Some 5), Next]"
  using admission_ordering [of limiter_index "''10.0.0.1''" 0 1000 2000 3000 4000 5000 14000]
  by (simp add: limiter_index_def RateLimiter_new_def middleware_def client_record_def Let_def)

section \<open>Properties of the asynchronous queue\<close>

declare processQueue.simps [simp del]

lemma processQueue_idle:
  "maxConcurrent s \<le> currentlyProcessing s \<or> queue s = [] \<Longrightarrow> processQueue s = s"
  by (subst processQueue.simps) auto

lemma processQueue_Returns:
  assumes "currentlyProcessing s < maxConcurrent s" "queue s = task # rest" "fn task = Returns"
  shows "processQueue s =
     s\<lparr>queue := rest, currentlyProcessing := currentlyProcessing s + 1,
       invoked := invoked s @ [task], peak := max (peak s) (length (executing s) + 1),
       executing := executing s @ [task],
       processing := (processing s)(id_t task \<mapsto> Inner (caller task))\<rparr>"
  using assms by (subst processQueue.simps) (simp add: call_fn_def Let_def)

lemma processQueue_Throws:
  assumes "currentlyProcessing s < maxConcurrent s" "queue s = task # rest" "fn task = Throws error"
  shows "processQueue s =
     (let s4 = processQueue (thrown_state s task rest error)
      in s4\<lparr>promises := (promises s4)(Inner (caller task) \<mapsto> Rejected error),
            processing := (processing s4)(id_t task \<mapsto> Inner (caller task))\<rparr>)"
  using assms by (subst processQueue.simps) (simp add: thrown_state_def settle_inner_def Let_def)

lemma thrown_state_fields:
  "queue (thrown_state s task rest error) = rest"
  "currentlyProcessing (thrown_state s task rest error) = currentlyProcessing s"
  "maxConcurrent (thrown_state s task rest error) = maxConcurrent s"
  "executing (thrown_state s task rest error) = executing s"
  "invoked (thrown_state s task rest error) = invoked s @ [task]"
  "peak (thrown_state s task rest error) = max (peak s) (length (executing s) + 1)"
  "created (thrown_state s task rest error) = created s"
  "returned (thrown_state s task rest error) = returned s"
  "processing (thrown_state s task rest error) = (processing s)(id_t task := None)"
  "promises (thrown_state s task rest error) = (promises s)(Caller (caller task) \<mapsto> Rejected (as_Error error))"
  by (simp_all add: thrown_state_def finally_block_def settle_caller_def call_fn_def)

lemma processQueue_cases [case_names idle Returns Throws]:
  assumes "maxConcurrent s \<le> currentlyProcessing s \<or> queue s = [] \<Longrightarrow> P"
    and "\<And>task rest. currentlyProcessing s < maxConcurrent s \<Longrightarrow> queue s = task # rest \<Longrightarrow> fn task = Returns \<Longrightarrow> P"
    and "\<And>task rest error. currentlyProcessing s < maxConcurrent s \<Longrightarrow> queue s = task # rest \<Longrightarrow> fn task = Throws error \<Longrightarrow> P"
  shows P
proof (cases "maxConcurrent s \<le> currentlyProcessing s \<or> queue s = []")
  case True then show ?thesis by (rule assms(1))
next
  case False
  then obtain task rest where q: "queue s = task # rest" by (cases "queue s") auto
  from False have lt: "currentlyProcessing s < maxConcurrent s" by simp
  show ?thesis
  proof (cases "fn task")
    case Returns with lt q show ?thesis by (rule assms(2))
  next
    case (Throws error) with lt q show ?thesis by (rule assms(3))
  qed
qed

text \<open>Induction along the nested calls of \<^verbatim>\<open>processQueue\<close>.\<close>

lemma processQueue_induct [consumes 0, case_names idle Returns Throws]:
  assumes idle: "\<And>s. maxConcurrent s \<le> currentlyProcessing s \<or> queue s = [] \<Longrightarrow> P s"
    and ret: "\<And>s task rest. currentlyProcessing s < maxConcurrent s \<Longrightarrow> queue s = task # rest
                \<Longrightarrow> fn task = Returns \<Longrightarrow> P s"
    and thr: "\<And>s task rest error. currentlyProcessing s < maxConcurrent s \<Longrightarrow> queue s = task # rest
                \<Longrightarrow> fn task = Throws error \<Longrightarrow> P (thrown_state s task rest error) \<Longrightarrow> P s"
  shows "P (s :: 'v AsyncQueue)"
proof (induction "length (queue s)" arbitrary: s rule: less_induct)
  case less
  show ?case
  proof (cases s rule: processQueue_cases)
    case idle then show ?thesis by (rule assms(1))
  next
    case (Returns task rest) then show ?thesis by (rule ret)
  next
    case (Throws task rest error)
    have "P (thrown_state s task rest error)"
      by (rule less) (simp add: thrown_state_fields Throws)
    with Throws show ?thesis by (rule thr)
  qed
qed

lemma processQueue_maxConcurrent: "maxConcurrent (processQueue s) = maxConcurrent s"
proof (induction s rule: processQueue_induct)
  case (idle s) then show ?case by (simp add: processQueue_idle)
next
  case (Returns s task rest) then show ?case by (simp add: processQueue_Returns)
next
  case (Throws s task rest error) then show ?case
    by (simp add: processQueue_Throws Let_def thrown_state_fields)
qed

lemma processQueue_bounded: "bounded s \<Longrightarrow> bounded (processQueue s)"
proof (induction s rule: processQueue_induct)
  case (idle s) then show ?case by (simp add: processQueue_idle)
next
  case (Returns s task rest) then show ?case
    by (auto simp add: processQueue_Returns bounded_def)
next
  case (Throws s task rest error)
  have "bounded (thrown_state s task rest error)"
    using Throws.prems Throws.hyps by (auto simp add: bounded_def thrown_state_fields)
  then have "bounded (processQueue (thrown_state s task rest error))" by (rule Throws.IH)
  then show ?case
    using Throws.hyps by (simp add: processQueue_Throws Let_def bounded_def)
qed

lemma settled_state_fields:
  "queue (settled_state s task out) = queue s"
  "currentlyProcessing (settled_state s task out) = currentlyProcessing s - 1"
  "maxConcurrent (settled_state s task out) = maxConcurrent s"
  "executing (settled_state s task out) = remove1 task (executing s)"
  "invoked (settled_state s task out) = invoked s"
  "peak (settled_state s task out) = peak s"
  "created (settled_state s task out) = created s"
  "returned (settled_state s task out) = returned s"
  "processing (settled_state s task out) = (processing s)(id_t task := None)"
  "promises (settled_state s task out) =
     (promises s)(Caller (caller task) \<mapsto>
        (case out of Resolved v \<Rightarrow> Resolved v | Rejected e \<Rightarrow> Rejected (as_Error e)))"
  by (simp_all add: settled_state_def finally_block_def settle_caller_def split: outcome.splits)

lemma settle_None:
  "find (\<lambda>t. caller t = n) (executing s) = None \<Longrightarrow> settle s n out = s"
  by (simp add: settle_def)

lemma settle_Some:
  "find (\<lambda>t. caller t = n) (executing s) = Some task \<Longrightarrow>
   settle s n out =
     (let s3 = processQueue (settled_state s task out)
      in s3\<lparr>promises := (promises s3)(Inner (caller task) \<mapsto> out)\<rparr>)"
  by (simp add: settle_def settled_state_def settle_inner_def Let_def)

lemma find_executing:
  "find (\<lambda>t. caller t = n) ts = Some task \<Longrightarrow> task \<in> set ts \<and> caller task = n"
  by (auto simp add: find_Some_iff)

lemma length_remove1_mem:
  "task \<in> set ts \<Longrightarrow> int (length (remove1 task ts)) = int (length ts) - 1"
  by (induction ts) auto

lemma settled_state_bounded:
  assumes "bounded s" "task \<in> set (executing s)"
  shows "bounded (settled_state s task out)"
proof -
  have len: "int (length (remove1 task (executing s))) = int (length (executing s)) - 1"
    using assms(2) by (rule length_remove1_mem)
  have a: "int (length (executing s)) = currentlyProcessing s"
    and b: "currentlyProcessing s \<le> max 0 (maxConcurrent s)"
    and c: "int (peak s) \<le> max 0 (maxConcurrent s)"
    using assms(1) by (simp_all add: bounded_def)
  have "int (length (executing (settled_state s task out))) = currentlyProcessing (settled_state s task out)"
    using a len by (simp add: settled_state_fields(2,4))
  moreover have "currentlyProcessing (settled_state s task out) \<le> max 0 (maxConcurrent (settled_state s task out))"
    using b by (simp add: settled_state_fields(2,3))
  moreover have "int (peak (settled_state s task out)) \<le> max 0 (maxConcurrent (settled_state s task out))"
    using c by (simp add: settled_state_fields(3,6))
  ultimately show ?thesis
    unfolding bounded_def by blast
qed

lemma settle_bounded:
  assumes "bounded s" shows "bounded (settle s n out)"
proof (cases "find (\<lambda>t. caller t = n) (executing s)")
  case None then show ?thesis using assms by (simp add: settle_None)
next
  case (Some task)
  then have "task \<in> set (executing s)" using find_executing by blast
  with assms have "bounded (settled_state s task out)" by (rule settled_state_bounded)
  then have "bounded (processQueue (settled_state s task out))" by (rule processQueue_bounded)
  moreover have "settle s n out =
      (processQueue (settled_state s task out))
        \<lparr>promises := (promises (processQueue (settled_state s task out)))(Inner (caller task) \<mapsto> out)\<rparr>"
    using Some by (simp add: settle_Some Let_def)
  ultimately show ?thesis by (simp add: bounded_def)
qed

lemma enqueue_new:
  "processing s k = None \<Longrightarrow>
   enqueue s k f =
     (let s2 = processQueue (s\<lparr>queue := queue s @ [\<lparr>id_t = k, fn = f, caller = created s\<rparr>],
                                 created := created s + 1\<rparr>)
      in (s2\<lparr>returned := returned s2 @ [(k, Caller (created s))]\<rparr>, Caller (created s)))"
  by (simp add: enqueue_def Let_def)

lemma enqueue_join:
  "processing s k = Some p \<Longrightarrow> enqueue s k f = (s\<lparr>returned := returned s @ [(k, p)]\<rparr>, p)"
  by (simp add: enqueue_def)

lemma enqueue_bounded:
  assumes "bounded s" shows "bounded (fst (enqueue s k f))"
proof (cases "processing s k")
  case None
  have "bounded (s\<lparr>queue := queue s @ [\<lparr>id_t = k, fn = f, caller = created s\<rparr>], created := created s + 1\<rparr>)"
    using assms by (simp add: bounded_def)
  then have "bounded (processQueue (s\<lparr>queue := queue s @ [\<lparr>id_t = k, fn = f, caller = created s\<rparr>], created := created s + 1\<rparr>))"
    by (rule processQueue_bounded)
  then show ?thesis by (simp add: enqueue_new[OF None] Let_def bounded_def)
next
  case (Some p) then show ?thesis using assms by (simp add: enqueue_join bounded_def)
qed

lemma step_bounded: "bounded s \<Longrightarrow> bounded (step s ev)"
  by (cases ev) (simp_all add: enqueue_bounded settle_bounded)

lemma run_Nil: "run s [] = s"
  by (simp add: run_def)

lemma run_Cons: "run s (ev # evs) = run (step s ev) evs"
  by (simp add: run_def)

lemma run_append: "run s (evs @ evs') = run (run s evs) evs'"
  by (simp add: run_def)

lemma run_bounded: "bounded s \<Longrightarrow> bounded (run s evs)"
  by (induction evs arbitrary: s) (simp_all add: run_Nil run_Cons step_bounded)

lemma settle_maxConcurrent: "maxConcurrent (settle s n out) = maxConcurrent s"
  by (cases "find (\<lambda>t. caller t = n) (executing s)")
     (simp_all add: settle_None settle_Some Let_def processQueue_maxConcurrent settled_state_fields)

lemma enqueue_maxConcurrent: "maxConcurrent (fst (enqueue s k f)) = maxConcurrent s"
  by (cases "processing s k") (simp_all add: enqueue_new enqueue_join Let_def processQueue_maxConcurrent)

lemma step_maxConcurrent: "maxConcurrent (step s ev) = maxConcurrent s"
  by (cases ev) (simp_all add: enqueue_maxConcurrent settle_maxConcurrent)

lemma run_maxConcurrent: "maxConcurrent (run s evs) = maxConcurrent s"
  by (induction evs arbitrary: s) (simp_all add: run_Nil run_Cons step_maxConcurrent)

text \<open>
  Claim C4 (concurrency bound). After any sequence of \<^verbatim>\<open>enqueue\<close> calls and settlements, on a
  queue made with \<^verbatim>\<open>maxConcurrent = m\<close>, at most \<open>m\<close> fetch functions are executing (none
  when \<open>m\<close> is negative), whatever the keys are; the same bound holds for the largest number
  that ever executed at the same time, counted at every call of a fetch function, and the
  counter \<^verbatim>\<open>currentlyProcessing\<close> is the number of executing fetch functions.
\<close>

theorem concurrency_bound:
  "int (length (executing (run (AsyncQueue_new m) evs))) \<le> max 0 m
   \<and> int (peak (run (AsyncQueue_new m) evs)) \<le> max 0 m
   \<and> currentlyProcessing (run (AsyncQueue_new m) evs)
        = int (length (executing (run (AsyncQueue_new m) evs)))"
proof -
  have "bounded (AsyncQueue_new m :: 'a AsyncQueue)"
    by (simp add: bounded_def AsyncQueue_new_def)
  then have b: "bounded (run (AsyncQueue_new m :: 'a AsyncQueue) evs)" by (rule run_bounded)
  have m: "maxConcurrent (run (AsyncQueue_new m :: 'a AsyncQueue) evs) = m"
    by (simp add: run_maxConcurrent) (simp add: AsyncQueue_new_def)
  from b have "int (length (executing (run (AsyncQueue_new m :: 'a AsyncQueue) evs)))
                 = currentlyProcessing (run (AsyncQueue_new m :: 'a AsyncQueue) evs)
      \<and> currentlyProcessing (run (AsyncQueue_new m :: 'a AsyncQueue) evs)
            \<le> max 0 (maxConcurrent (run (AsyncQueue_new m :: 'a AsyncQueue) evs))
      \<and> int (peak (run (AsyncQueue_new m :: 'a AsyncQueue) evs))
            \<le> max 0 (maxConcurrent (run (AsyncQueue_new m :: 'a AsyncQueue) evs))"
    by (simp only: bounded_def)
  then show ?thesis
    by (simp only: m)
qed

lemma processQueue_created: "created (processQueue s) = created s"
proof (induction s rule: processQueue_induct)
  case (idle s) then show ?case by (simp add: processQueue_idle)
next
  case (Returns s task rest) then show ?case by (simp add: processQueue_Returns)
next
  case (Throws s task rest error) then show ?case
    by (simp add: processQueue_Throws Let_def thrown_state_fields)
qed

lemma processQueue_live:
  "set (queue (processQueue s)) \<union> set (executing (processQueue s))
     \<subseteq> set (queue s) \<union> set (executing s)"
proof (induction s rule: processQueue_induct)
  case (idle s) then show ?case by (simp add: processQueue_idle)
next
  case (Returns s task rest) then show ?case by (auto simp add: processQueue_Returns)
next
  case (Throws s task rest error)
  then show ?case
    by (auto simp add: processQueue_Throws Let_def thrown_state_fields)
qed

lemma tasks_ok_thrown_state:
  assumes "tasks_ok s" "queue s = task # rest"
  shows "tasks_ok (thrown_state s task rest error)"
  using assms unfolding tasks_ok_def thrown_state_fields by (auto simp add: image_iff)

lemma tasks_ok_settle_inner:
  assumes "tasks_ok s" "\<forall>t \<in> set (queue s @ executing s). caller t \<noteq> n" "n < created s"
  shows "tasks_ok (s\<lparr>promises := (promises s)(Inner n \<mapsto> out), processing := pr\<rparr>)"
  using assms unfolding tasks_ok_def by auto

lemma processQueue_tasks_ok: "tasks_ok s \<Longrightarrow> tasks_ok (processQueue s)"
proof (induction s rule: processQueue_induct)
  case (idle s) then show ?case by (simp add: processQueue_idle)
next
  case (Returns s task rest)
  then show ?case by (auto simp add: processQueue_Returns tasks_ok_def)
next
  case (Throws s task rest error)
  let ?s3 = "thrown_state s task rest error"
  have w3: "tasks_ok ?s3" using Throws.prems Throws.hyps(2) by (rule tasks_ok_thrown_state)
  then have w4: "tasks_ok (processQueue ?s3)" by (rule Throws.IH)
  have "set (queue (processQueue ?s3)) \<union> set (executing (processQueue ?s3))
          \<subseteq> set rest \<union> set (executing s)"
    using processQueue_live[of ?s3] by (simp add: thrown_state_fields)
  moreover have "\<forall>t \<in> set rest \<union> set (executing s). caller t \<noteq> caller task"
    using Throws.prems Throws.hyps(2) unfolding tasks_ok_def by (auto simp add: image_iff)
  ultimately have fresh: "\<forall>t \<in> set (queue (processQueue ?s3) @ executing (processQueue ?s3)).
                            caller t \<noteq> caller task"
    by auto
  have lt: "caller task < created (processQueue ?s3)"
    using Throws.prems Throws.hyps(2) unfolding tasks_ok_def
    by (simp add: processQueue_created thrown_state_fields)
  show ?case
    unfolding processQueue_Throws[OF Throws.hyps] Let_def
    using w4 fresh lt by (rule tasks_ok_settle_inner)
qed

lemma processQueue_promises:
  "tasks_ok s \<Longrightarrow> promises s p = Some out \<Longrightarrow> promises (processQueue s) p = Some out"
proof (induction s rule: processQueue_induct)
  case (idle s) then show ?case by (simp add: processQueue_idle)
next
  case (Returns s task rest) then show ?case by (simp add: processQueue_Returns)
next
  case (Throws s task rest error)
  let ?s3 = "thrown_state s task rest error"
  have pend: "promises s (Caller (caller task)) = None" "promises s (Inner (caller task)) = None"
    using Throws.prems(1) Throws.hyps(2) unfolding tasks_ok_def by auto
  with Throws.prems(2) have ne: "p \<noteq> Caller (caller task)" "p \<noteq> Inner (caller task)" by auto
  have "tasks_ok ?s3" using Throws.prems(1) Throws.hyps(2) by (rule tasks_ok_thrown_state)
  moreover have "promises ?s3 p = Some out"
    using Throws.prems(2) ne by (simp add: thrown_state_fields)
  ultimately have "promises (processQueue ?s3) p = Some out" by (rule Throws.IH)
  then show ?case
    using ne unfolding processQueue_Throws[OF Throws.hyps] Let_def by simp
qed

lemma tasks_ok_settled_state:
  assumes "tasks_ok s" "task \<in> set (executing s)"
  shows "tasks_ok (settled_state s task out)"
proof -
  have d: "distinct (map caller (queue s @ executing s))"
    and a: "\<forall>t \<in> set (queue s @ executing s).
           caller t < created s
           \<and> promises s (Caller (caller t)) = None \<and> promises s (Inner (caller t)) = None"
    and f: "\<forall>n. created s \<le> n \<longrightarrow> promises s (Caller n) = None \<and> promises s (Inner n) = None"
    using assms(1) unfolding tasks_ok_def by blast+
  have d': "distinct (map caller (queue s @ remove1 task (executing s)))"
    using d by (auto simp add: distinct_map distinct_remove1 inj_on_def dest: notin_set_remove1)
  have other: "\<forall>t \<in> set (queue s @ remove1 task (executing s)). caller t \<noteq> caller task"
  proof
    fix t assume t: "t \<in> set (queue s @ remove1 task (executing s))"
    have inj: "inj_on caller (set (queue s @ executing s))" and dl: "distinct (queue s @ executing s)"
      using d by (simp_all only: distinct_map)
    have "t \<noteq> task"
      using t dl assms(2) by auto
    moreover have "t \<in> set (queue s @ executing s)"
      using t by (auto dest: notin_set_remove1)
    moreover have "task \<in> set (queue s @ executing s)" using assms(2) by simp
    ultimately show "caller t \<noteq> caller task"
      using inj by (meson inj_onD)
  qed
  have a': "\<forall>t \<in> set (queue s @ remove1 task (executing s)).
           caller t < created s
           \<and> promises (settled_state s task out) (Caller (caller t)) = None
           \<and> promises (settled_state s task out) (Inner (caller t)) = None"
    using a other by (auto simp add: settled_state_fields dest: notin_set_remove1)
  have lt: "caller task < created s" using a assms(2) by simp
  have f': "\<forall>n. created s \<le> n \<longrightarrow> promises (settled_state s task out) (Caller n) = None
                \<and> promises (settled_state s task out) (Inner n) = None"
    using f lt by (auto simp add: settled_state_fields)
  show ?thesis
    unfolding tasks_ok_def using d' a' f' by (simp add: settled_state_fields)
qed

lemma find_caller_distinct:
  assumes "distinct (map caller ts)" "task \<in> set ts"
  shows "find (\<lambda>t. caller t = caller task) ts = Some task"
  using assms by (induction ts) (auto simp add: image_iff)

lemma settle_tasks_ok:
  assumes "tasks_ok s" shows "tasks_ok (settle s n out)"
proof (cases "find (\<lambda>t. caller t = n) (executing s)")
  case None then show ?thesis using assms by (simp add: settle_None)
next
  case (Some task)
  then have mem: "task \<in> set (executing s)" and n: "caller task = n"
    using find_executing by blast+
  let ?s2 = "settled_state s task out"
  have w2: "tasks_ok ?s2" using assms mem by (rule tasks_ok_settled_state)
  then have w3: "tasks_ok (processQueue ?s2)" by (rule processQueue_tasks_ok)
  have d: "distinct (map caller (queue s @ executing s))"
    using assms unfolding tasks_ok_def by blast
  have inj: "inj_on caller (set (queue s @ executing s))" and dl: "distinct (queue s @ executing s)"
    using d by (simp_all only: distinct_map)
  have "set (queue (processQueue ?s2)) \<union> set (executing (processQueue ?s2))
          \<subseteq> set (queue s) \<union> set (remove1 task (executing s))"
    using processQueue_live[of ?s2] by (simp add: settled_state_fields)
  moreover have "\<forall>t \<in> set (queue s) \<union> set (remove1 task (executing s)). caller t \<noteq> caller task"
  proof
    fix t assume t: "t \<in> set (queue s) \<union> set (remove1 task (executing s))"
    have "t \<noteq> task" using t dl mem by auto
    moreover have "t \<in> set (queue s @ executing s)" using t by (auto dest: notin_set_remove1)
    moreover have "task \<in> set (queue s @ executing s)" using mem by simp
    ultimately show "caller t \<noteq> caller task" using inj by (meson inj_onD)
  qed
  ultimately have fresh: "\<forall>t \<in> set (queue (processQueue ?s2) @ executing (processQueue ?s2)).
                            caller t \<noteq> caller task"
    by auto
  have lt: "caller task < created (processQueue ?s2)"
    using assms mem unfolding tasks_ok_def by (simp add: processQueue_created settled_state_fields)
  have "tasks_ok ((processQueue ?s2)\<lparr>promises := (promises (processQueue ?s2))(Inner (caller task) \<mapsto> out),
                               processing := processing (processQueue ?s2)\<rparr>)"
    using w3 fresh lt by (rule tasks_ok_settle_inner)
  then show ?thesis
    by (simp add: settle_Some[OF Some] Let_def)
qed

lemma tasks_ok_pushed:
  assumes "tasks_ok s"
  shows "tasks_ok (s\<lparr>queue := queue s @ [\<lparr>id_t = k, fn = f, caller = created s\<rparr>], created := created s + 1\<rparr>)"
proof -
  have "\<forall>t \<in> set (queue s @ executing s). caller t \<noteq> created s"
    using assms unfolding tasks_ok_def by fastforce
  then show ?thesis
    using assms unfolding tasks_ok_def by (auto simp add: image_iff less_Suc_eq)
qed

lemma enqueue_tasks_ok:
  assumes "tasks_ok s" shows "tasks_ok (fst (enqueue s k f))"
proof (cases "processing s k")
  case None
  have "tasks_ok (processQueue (s\<lparr>queue := queue s @ [\<lparr>id_t = k, fn = f, caller = created s\<rparr>],
                             created := created s + 1\<rparr>))"
    using assms by (intro processQueue_tasks_ok tasks_ok_pushed)
  then show ?thesis by (simp add: enqueue_new[OF None] Let_def tasks_ok_def)
next
  case (Some p) then show ?thesis using assms by (simp add: enqueue_join tasks_ok_def)
qed

lemma step_tasks_ok: "tasks_ok s \<Longrightarrow> tasks_ok (step s ev)"
  by (cases ev) (simp_all add: enqueue_tasks_ok settle_tasks_ok)

lemma run_tasks_ok: "tasks_ok s \<Longrightarrow> tasks_ok (run s evs)"
  by (induction evs arbitrary: s) (simp_all add: run_Nil run_Cons step_tasks_ok)

lemma tasks_ok_new: "tasks_ok (AsyncQueue_new m)"
  by (simp add: tasks_ok_def AsyncQueue_new_def)

lemma settle_promises:
  assumes "tasks_ok s" "promises s p = Some x" shows "promises (settle s n out) p = Some x"
proof (cases "find (\<lambda>t. caller t = n) (executing s)")
  case None then show ?thesis using assms by (simp add: settle_None)
next
  case (Some task)
  then have mem: "task \<in> set (executing s)" using find_executing by blast
  have pend: "promises s (Caller (caller task)) = None" "promises s (Inner (caller task)) = None"
    using assms(1) mem unfolding tasks_ok_def by auto
  with assms(2) have ne: "p \<noteq> Caller (caller task)" "p \<noteq> Inner (caller task)" by auto
  have "tasks_ok (settled_state s task out)" using assms(1) mem by (rule tasks_ok_settled_state)
  moreover have "promises (settled_state s task out) p = Some x"
    using assms(2) ne by (simp add: settled_state_fields)
  ultimately have "promises (processQueue (settled_state s task out)) p = Some x"
    by (rule processQueue_promises)
  then show ?thesis using ne by (simp add: settle_Some[OF Some] Let_def)
qed

lemma enqueue_promises:
  assumes "tasks_ok s" "promises s p = Some x" shows "promises (fst (enqueue s k f)) p = Some x"
proof (cases "processing s k")
  case None
  let ?s1 = "s\<lparr>queue := queue s @ [\<lparr>id_t = k, fn = f, caller = created s\<rparr>], created := created s + 1\<rparr>"
  have "tasks_ok ?s1" using assms(1) by (rule tasks_ok_pushed)
  moreover have "promises ?s1 p = Some x" using assms(2) by simp
  ultimately have "promises (processQueue ?s1) p = Some x" by (rule processQueue_promises)
  then show ?thesis by (simp add: enqueue_new[OF None] Let_def)
next
  case (Some q) then show ?thesis using assms by (simp add: enqueue_join)
qed

lemma step_promises: "tasks_ok s \<Longrightarrow> promises s p = Some x \<Longrightarrow> promises (step s ev) p = Some x"
  by (cases ev) (simp_all add: enqueue_promises settle_promises)

lemma run_promises: "tasks_ok s \<Longrightarrow> promises s p = Some x \<Longrightarrow> promises (run s evs) p = Some x"
  by (induction evs arbitrary: s) (simp_all add: run_Nil run_Cons step_promises step_tasks_ok)

lemma processQueue_no_idle_slot:
  "length (queue s) \<le> 1 \<or> maxConcurrent s \<le> currentlyProcessing s + 1 \<Longrightarrow> no_idle_slot (processQueue s)"
proof (induction s rule: processQueue_induct)
  case (idle s) then show ?case by (auto simp add: processQueue_idle no_idle_slot_def)
next
  case (Returns s task rest) then show ?case
    by (auto simp add: processQueue_Returns no_idle_slot_def)
next
  case (Throws s task rest error)
  have "no_idle_slot (processQueue (thrown_state s task rest error))"
    using Throws.prems Throws.hyps by (intro Throws.IH) (auto simp add: thrown_state_fields)
  then show ?case
    unfolding processQueue_Throws[OF Throws.hyps] Let_def by (simp add: no_idle_slot_def)
qed

lemma settle_no_idle_slot:
  assumes "no_idle_slot s" shows "no_idle_slot (settle s n out)"
proof (cases "find (\<lambda>t. caller t = n) (executing s)")
  case None then show ?thesis using assms by (simp add: settle_None)
next
  case (Some task)
  have "no_idle_slot (processQueue (settled_state s task out))"
    using assms by (intro processQueue_no_idle_slot) (auto simp add: settled_state_fields no_idle_slot_def)
  then show ?thesis by (simp add: settle_Some[OF Some] Let_def no_idle_slot_def)
qed

lemma enqueue_no_idle_slot:
  assumes "no_idle_slot s" shows "no_idle_slot (fst (enqueue s k f))"
proof (cases "processing s k")
  case None
  have "no_idle_slot (processQueue (s\<lparr>queue := queue s @ [\<lparr>id_t = k, fn = f, caller = created s\<rparr>],
                             created := created s + 1\<rparr>))"
  proof (cases "maxConcurrent s \<le> currentlyProcessing s")
    case True then show ?thesis by (simp add: processQueue_idle no_idle_slot_def)
  next
    case False
    with assms have "queue s = []" by (simp add: no_idle_slot_def)
    then show ?thesis by (intro processQueue_no_idle_slot) simp
  qed
  then show ?thesis by (simp add: enqueue_new[OF None] Let_def no_idle_slot_def)
next
  case (Some p) then show ?thesis using assms by (simp add: enqueue_join no_idle_slot_def)
qed

lemma step_no_idle_slot: "no_idle_slot s \<Longrightarrow> no_idle_slot (step s ev)"
  by (cases ev) (simp_all add: enqueue_no_idle_slot settle_no_idle_slot)

lemma run_no_idle_slot: "no_idle_slot s \<Longrightarrow> no_idle_slot (run s evs)"
  by (induction evs arbitrary: s) (simp_all add: run_Nil run_Cons step_no_idle_slot)

lemma no_idle_slot_new: "no_idle_slot (AsyncQueue_new m)"
  by (simp add: no_idle_slot_def AsyncQueue_new_def)

lemma run_joins:
  assumes "processing s k = Some p"
  shows "run s (map (Enqueue k) fs) = s\<lparr>returned := returned s @ replicate (length fs) (k, p)\<rparr>"
  using assms
proof (induction fs arbitrary: s)
  case Nil then show ?case by (simp add: run_Nil)
next
  case (Cons f fs)
  have "run (s\<lparr>returned := returned s @ [(k, p)]\<rparr>) (map (Enqueue k) fs)
          = (s\<lparr>returned := returned s @ [(k, p)]\<rparr>)
              \<lparr>returned := returned (s\<lparr>returned := returned s @ [(k, p)]\<rparr>) @ replicate (length fs) (k, p)\<rparr>"
    using Cons.prems by (intro Cons.IH) simp
  then show ?case
    using Cons.prems by (simp add: run_Cons enqueue_join replicate_app_Cons_same)
qed

lemma find_snoc_first:
  "\<forall>t \<in> set ts. \<not> P t \<Longrightarrow> P x \<Longrightarrow> find P (ts @ [x]) = Some x"
  by (induction ts) simp_all

lemma settle_outcome:
  assumes w: "tasks_ok s" and ex: "task \<in> set (executing s)"
  shows "promises (run (settle s (caller task) out) evs') (Caller (caller task))
           = Some (case out of Resolved v \<Rightarrow> Resolved v | Rejected e \<Rightarrow> Rejected (as_Error e))
       \<and> promises (run (settle s (caller task) out) evs') (Inner (caller task)) = Some out"
proof -
  have "distinct (map caller (executing s))" using w unfolding tasks_ok_def by simp
  then have fnd: "find (\<lambda>t. caller t = caller task) (executing s) = Some task"
    using ex by (rule find_caller_distinct)
  let ?s2 = "settled_state s task out"
  let ?s' = "settle s (caller task) out"
  have "tasks_ok ?s2" using w ex by (rule tasks_ok_settled_state)
  moreover have "promises ?s2 (Caller (caller task))
      = Some (case out of Resolved v \<Rightarrow> Resolved v | Rejected e \<Rightarrow> Rejected (as_Error e))"
    by (simp add: settled_state_fields)
  ultimately have "promises (processQueue ?s2) (Caller (caller task))
      = Some (case out of Resolved v \<Rightarrow> Resolved v | Rejected e \<Rightarrow> Rejected (as_Error e))"
    by (rule processQueue_promises)
  then have c: "promises ?s' (Caller (caller task))
      = Some (case out of Resolved v \<Rightarrow> Resolved v | Rejected e \<Rightarrow> Rejected (as_Error e))"
    and i: "promises ?s' (Inner (caller task)) = Some out"
    by (simp_all add: settle_Some[OF fnd] Let_def)
  have w': "tasks_ok ?s'" using w by (rule settle_tasks_ok)
  show ?thesis
    using w' c i by (simp add: run_promises)
qed

lemma processQueue_entries_live:
  "entries_live s \<Longrightarrow> entries_live (processQueue s)"
proof (induction s rule: processQueue_induct)
  case (idle s) then show ?case by (simp add: processQueue_idle)
next
  case (Returns s task rest)
  then show ?case
    unfolding entries_live_def
    by (auto simp add: processQueue_Returns)
next
  case (Throws s task rest error)
  then have False unfolding entries_live_def by simp
  then show ?case ..
qed

lemma settle_entries_live:
  assumes e: "entries_live s" and w: "tasks_ok s"
  shows "entries_live (settle s n out)"
proof (cases "find (\<lambda>t. caller t = n) (executing s)")
  case None then show ?thesis using e by (simp add: settle_None)
next
  case (Some task)
  then have mem: "task \<in> set (executing s)" using find_executing by blast
  have d: "distinct (executing s)"
    using w unfolding tasks_ok_def by (simp add: distinct_map)
  have "\<exists>t \<in> set (remove1 task (executing s)). p = Inner (caller t) \<and> id_t t = k"
    if "((processing s)(id_t task := None)) k = Some p" for k p
  proof -
    from that have k: "k \<noteq> id_t task" and "processing s k = Some p" by (auto split: if_splits)
    with e obtain t where t: "t \<in> set (executing s)" "p = Inner (caller t)" "id_t t = k"
      unfolding entries_live_def by blast
    then have "t \<noteq> task" using k by auto
    then have "t \<in> set (remove1 task (executing s))" using t(1) by simp
    then show ?thesis using t by blast
  qed
  then have "entries_live (settled_state s task out)"
    using e unfolding entries_live_def settled_state_fields by blast
  then have "entries_live (processQueue (settled_state s task out))"
    by (rule processQueue_entries_live)
  then show ?thesis
    by (simp add: settle_Some[OF Some] Let_def entries_live_def)
qed

lemma enqueue_entries_live:
  assumes e: "entries_live s" shows "entries_live (fst (enqueue s k Returns))"
proof (cases "processing s k")
  case None
  have "entries_live (s\<lparr>queue := queue s @ [\<lparr>id_t = k, fn = Returns, caller = created s\<rparr>],
                        created := created s + 1\<rparr>)"
    using e unfolding entries_live_def by simp
  then have "entries_live (processQueue (s\<lparr>queue := queue s @ [\<lparr>id_t = k, fn = Returns, caller = created s\<rparr>],
                        created := created s + 1\<rparr>))"
    by (rule processQueue_entries_live)
  then show ?thesis by (simp add: enqueue_new[OF None] Let_def entries_live_def)
next
  case (Some p) then show ?thesis using e by (simp add: enqueue_join entries_live_def)
qed

lemma run_entries_live:
  "only_returns evs \<Longrightarrow> entries_live s \<Longrightarrow> tasks_ok s \<Longrightarrow> entries_live (run s evs)"
proof (induction evs arbitrary: s)
  case Nil then show ?case by (simp add: run_Nil)
next
  case (Cons ev evs)
  have o: "only_returns evs" using Cons.prems(1) by (simp add: only_returns_def)
  have w: "tasks_ok (step s ev)" using Cons.prems(3) by (rule step_tasks_ok)
  have "entries_live (step s ev)"
  proof (cases ev)
    case (Enqueue k f)
    then have "f = Returns" using Cons.prems(1) by (simp add: only_returns_def)
    then show ?thesis using Enqueue Cons.prems(2) by (simp add: enqueue_entries_live)
  next
    case (Settle n out)
    then show ?thesis using Cons.prems(2,3) by (simp add: settle_entries_live)
  qed
  then show ?case using Cons.IH[OF o _ w] by (simp add: run_Cons)
qed

lemma entries_live_new: "entries_live (AsyncQueue_new m)"
  by (simp add: entries_live_def AsyncQueue_new_def)

lemma enqueue_Returns_free:
  assumes "processing s k = None" "queue s = []" "currentlyProcessing s < maxConcurrent s"
  shows "snd (enqueue s k Returns) = Caller (created s)"
    and "invoked (fst (enqueue s k Returns)) = invoked s @ [\<lparr>id_t = k, fn = Returns, caller = created s\<rparr>]"
    and "processing (fst (enqueue s k Returns)) k = Some (Inner (created s))"
proof -
  let ?task = "\<lparr>id_t = k, fn = Returns, caller = created s\<rparr>"
  let ?s1 = "s\<lparr>queue := queue s @ [?task], created := created s + 1\<rparr>"
  have p: "processQueue ?s1 =
     ?s1\<lparr>queue := [], currentlyProcessing := currentlyProcessing ?s1 + 1,
       invoked := invoked ?s1 @ [?task], peak := max (peak ?s1) (length (executing ?s1) + 1),
       executing := executing ?s1 @ [?task],
       processing := (processing ?s1)(id_t ?task \<mapsto> Inner (caller ?task))\<rparr>"
    by (rule processQueue_Returns) (simp_all add: assms)
  have en: "enqueue s k Returns =
      ((processQueue ?s1)\<lparr>returned := returned (processQueue ?s1) @ [(k, Caller (created s))]\<rparr>,
       Caller (created s))"
    unfolding enqueue_new[OF assms(1)] Let_def ..
  show "snd (enqueue s k Returns) = Caller (created s)"
    unfolding en by simp
  show "invoked (fst (enqueue s k Returns)) = invoked s @ [?task]"
    unfolding en p by simp
  show "processing (fst (enqueue s k Returns)) k = Some (Inner (created s))"
    unfolding en p by simp
qed

text \<open>
  The first call for a key that has no entry in \<^verbatim>\<open>processing\<close>, made while a slot is free, starts a
  task; the calls for the key that follow it join this task.
\<close>

lemma first_call_starts_fetch:
  assumes reach: "s = run (AsyncQueue_new m) evs"
      and absent: "processing s k = None"
      and slot: "currentlyProcessing s < maxConcurrent s"
      and calls: "s' = run s (Enqueue k Returns # map (Enqueue k) fs)"
  shows "invoked s' = invoked s @ [\<lparr>id_t = k, fn = Returns, caller = created s\<rparr>]
       \<and> returned s' = returned s @ (k, Caller (created s)) # replicate (length fs) (k, Inner (created s))
       \<and> promises s' (Caller (created s)) = None \<and> promises s' (Inner (created s)) = None
       \<and> promises (settle s' (created s) (Resolved v)) (Caller (created s)) = Some (Resolved v)
       \<and> promises (settle s' (created s) (Resolved v)) (Inner (created s)) = Some (Resolved v)"
proof -
  let ?task = "\<lparr>id_t = k, fn = Returns, caller = created s\<rparr>"
  have w: "tasks_ok s" unfolding reach by (intro run_tasks_ok tasks_ok_new)
  have "no_idle_slot s" unfolding reach by (intro run_no_idle_slot no_idle_slot_new)
  with slot have q: "queue s = []" by (simp add: no_idle_slot_def)
  define s1 where "s1 = s\<lparr>queue := queue s @ [?task], created := created s + 1\<rparr>"
  define s2 where "s2 = s1\<lparr>queue := [], currentlyProcessing := currentlyProcessing s1 + 1,
       invoked := invoked s1 @ [?task], peak := max (peak s1) (length (executing s1) + 1),
       executing := executing s1 @ [?task],
       processing := (processing s1)(id_t ?task \<mapsto> Inner (caller ?task))\<rparr>"
  have p1: "processQueue s1 = s2"
    unfolding s2_def
    by (rule processQueue_Returns) (simp_all add: s1_def slot q)
  define s3 where "s3 = s2\<lparr>returned := returned s2 @ [(k, Caller (created s))]\<rparr>"
  have e1: "step s (Enqueue k Returns) = s3"
    using absent p1 by (simp add: enqueue_new Let_def s1_def s3_def)
  have pr3: "processing s3 k = Some (Inner (created s))"
    by (simp add: s3_def s2_def)
  have s': "s' = s3\<lparr>returned := returned s3 @ replicate (length fs) (k, Inner (created s))\<rparr>"
    unfolding calls run_Cons e1 using pr3 by (rule run_joins)
  have inv: "invoked s' = invoked s @ [?task]"
    by (simp add: s' s3_def s2_def s1_def)
  have ret: "returned s' = returned s @ (k, Caller (created s)) # replicate (length fs) (k, Inner (created s))"
    by (simp add: s' s3_def s2_def s1_def)
  have pend: "promises s' (Caller (created s)) = None \<and> promises s' (Inner (created s)) = None"
    using w unfolding tasks_ok_def by (simp add: s' s3_def s2_def s1_def)
  have ex: "executing s' = executing s @ [?task]"
    by (simp add: s' s3_def s2_def s1_def)
  have older: "\<forall>t \<in> set (executing s). caller t \<noteq> created s"
  proof
    fix t assume "t \<in> set (executing s)"
    then have "caller t < created s" using w unfolding tasks_ok_def by simp
    then show "caller t \<noteq> created s" by simp
  qed
  have fnd: "find (\<lambda>t. caller t = created s) (executing s') = Some ?task"
    unfolding ex using older by (intro find_snoc_first) simp_all
  have idle: "processQueue (settled_state s' ?task (Resolved v)) = settled_state s' ?task (Resolved v)"
    by (rule processQueue_idle) (simp add: settled_state_fields s' s3_def s2_def)
  have "promises (settle s' (created s) (Resolved v)) =
          (promises s')(Caller (created s) \<mapsto> Resolved v, Inner (created s) \<mapsto> Resolved v)"
    by (simp add: settle_Some[OF fnd] Let_def idle settled_state_fields)
  then show ?thesis
    using inv ret pend by simp
qed

text \<open>
  The invariants of the states that are reached, shown along the nested calls of
  \<^verbatim>\<open>processQueue\<close> first.
\<close>

lemma processQueue_returned: "returned (processQueue s) = returned s"
proof (induction s rule: processQueue_induct)
  case (idle s) then show ?case by (simp add: processQueue_idle)
next
  case (Returns s task rest) then show ?case by (simp add: processQueue_Returns)
next
  case (Throws s task rest error) then show ?case
    by (simp add: processQueue_Throws Let_def thrown_state_fields)
qed

lemma processQueue_tasks:
  "set (queue (processQueue s)) \<union> set (invoked (processQueue s)) = set (queue s) \<union> set (invoked s)"
proof (induction s rule: processQueue_induct)
  case (idle s) then show ?case by (simp add: processQueue_idle)
next
  case (Returns s task rest) then show ?case by (auto simp add: processQueue_Returns)
next
  case (Throws s task rest error) then show ?case
    by (auto simp add: processQueue_Throws Let_def thrown_state_fields)
qed

lemma processQueue_invoked_mono: "set (invoked s) \<subseteq> set (invoked (processQueue s))"
proof (induction s rule: processQueue_induct)
  case (idle s) then show ?case by (simp add: processQueue_idle)
next
  case (Returns s task rest) then show ?case by (auto simp add: processQueue_Returns)
next
  case (Throws s task rest error) then show ?case
    by (auto simp add: processQueue_Throws Let_def thrown_state_fields)
qed

lemma processQueue_entries_invoked: "entries_invoked s \<Longrightarrow> entries_invoked (processQueue s)"
proof (induction s rule: processQueue_induct)
  case (idle s) then show ?case by (simp add: processQueue_idle)
next
  case (Returns s task rest) then show ?case
    by (auto simp add: processQueue_Returns entries_invoked_def)
next
  case (Throws s task rest error)
  let ?s3 = "thrown_state s task rest error"
  have "entries_invoked ?s3"
    using Throws.prems unfolding entries_invoked_def
    by (auto simp add: thrown_state_fields split: if_splits)
  then have e4: "entries_invoked (processQueue ?s3)" by (rule Throws.IH)
  have "task \<in> set (invoked ?s3)" by (simp add: thrown_state_fields)
  then have t: "task \<in> set (invoked (processQueue ?s3))"
    using processQueue_invoked_mono by blast
  show ?case
    unfolding processQueue_Throws[OF Throws.hyps] Let_def
    using e4 t unfolding entries_invoked_def by auto
qed

lemma processQueue_pairs:
  assumes "tasks_ok s"
  shows "(promises (processQueue s) (Caller n) = promises s (Caller n)
           \<and> promises (processQueue s) (Inner n) = promises s (Inner n))
       \<or> (\<exists>e. promises (processQueue s) (Caller n) = Some (Rejected (as_Error e))
           \<and> promises (processQueue s) (Inner n) = Some (Rejected e))"
  using assms
proof (induction s rule: processQueue_induct)
  case (idle s) then show ?case by (simp add: processQueue_idle)
next
  case (Returns s task rest) then show ?case by (simp add: processQueue_Returns)
next
  case (Throws s task rest error)
  let ?s3 = "thrown_state s task rest error"
  have w3: "tasks_ok ?s3" using Throws.prems Throws.hyps(2) by (rule tasks_ok_thrown_state)
  note ih = Throws.IH[OF w3]
  have fin: "promises (processQueue s) =
      (promises (processQueue ?s3))(Inner (caller task) \<mapsto> Rejected error)"
    unfolding processQueue_Throws[OF Throws.hyps] Let_def by simp
  show ?case
  proof (cases "n = caller task")
    case True
    have "promises ?s3 (Caller (caller task)) = Some (Rejected (as_Error error))"
      by (simp add: thrown_state_fields)
    with w3 have "promises (processQueue ?s3) (Caller (caller task)) = Some (Rejected (as_Error error))"
      by (rule processQueue_promises)
    then show ?thesis using True by (simp add: fin)
  next
    case False
    then show ?thesis using ih by (simp add: fin thrown_state_fields)
  qed
qed

lemma processQueue_paired:
  assumes "tasks_ok s" "paired s" shows "paired (processQueue s)"
  unfolding paired_def
proof
  fix n
  show "promises (processQueue s) (Caller n) =
          map_option (\<lambda>out. case out of Resolved v \<Rightarrow> Resolved v | Rejected e \<Rightarrow> Rejected (as_Error e))
            (promises (processQueue s) (Inner n))"
    using processQueue_pairs[OF assms(1), of n] assms(2) unfolding paired_def by auto
qed

lemma settle_paired:
  assumes "tasks_ok s" "paired s" shows "paired (settle s n out)"
proof (cases "find (\<lambda>t. caller t = n) (executing s)")
  case None then show ?thesis using assms by (simp add: settle_None)
next
  case (Some task)
  then have mem: "task \<in> set (executing s)" using find_executing by blast
  let ?s2 = "settled_state s task out"
  let ?w = "\<lambda>out. case out of Resolved v \<Rightarrow> Resolved v | Rejected e \<Rightarrow> Rejected (as_Error e)"
  have w2: "tasks_ok ?s2" using assms(1) mem by (rule tasks_ok_settled_state)
  have fin: "promises (settle s n out) = (promises (processQueue ?s2))(Inner (caller task) \<mapsto> out)"
    by (simp add: settle_Some[OF Some] Let_def)
  show ?thesis
    unfolding paired_def
  proof
    fix m
    show "promises (settle s n out) (Caller m) = map_option ?w (promises (settle s n out) (Inner m))"
    proof (cases "m = caller task")
      case True
      have "promises ?s2 (Caller (caller task)) = Some (?w out)"
        by (simp add: settled_state_fields)
      with w2 have "promises (processQueue ?s2) (Caller (caller task)) = Some (?w out)"
        by (rule processQueue_promises)
      then show ?thesis using True by (simp add: fin)
    next
      case False
      have "promises ?s2 (Caller m) = promises s (Caller m)" "promises ?s2 (Inner m) = promises s (Inner m)"
        using False by (simp_all add: settled_state_fields)
      then show ?thesis
        using processQueue_pairs[OF w2, of m] assms(2) False unfolding paired_def
        by (auto simp add: fin)
    qed
  qed
qed

lemma enqueue_paired:
  assumes "tasks_ok s" "paired s" shows "paired (fst (enqueue s k f))"
proof (cases "processing s k")
  case None
  let ?s1 = "s\<lparr>queue := queue s @ [\<lparr>id_t = k, fn = f, caller = created s\<rparr>], created := created s + 1\<rparr>"
  have "tasks_ok ?s1" using assms(1) by (rule tasks_ok_pushed)
  moreover have "paired ?s1" using assms(2) by (simp add: paired_def)
  ultimately have "paired (processQueue ?s1)" by (rule processQueue_paired)
  then show ?thesis by (simp add: enqueue_new[OF None] Let_def paired_def)
next
  case (Some p) then show ?thesis using assms by (simp add: enqueue_join paired_def)
qed

lemma run_paired: "tasks_ok s \<Longrightarrow> paired s \<Longrightarrow> paired (run s evs)"
proof (induction evs arbitrary: s)
  case Nil then show ?case by (simp add: run_Nil)
next
  case (Cons ev evs)
  have "tasks_ok (step s ev)" using Cons.prems(1) by (rule step_tasks_ok)
  moreover have "paired (step s ev)"
    using Cons.prems by (cases ev) (simp_all add: enqueue_paired settle_paired)
  ultimately show ?case by (simp add: run_Cons Cons.IH)
qed

lemma paired_new: "paired (AsyncQueue_new m)"
  by (simp add: paired_def AsyncQueue_new_def)

lemma settle_entries_invoked:
  assumes "entries_invoked s" shows "entries_invoked (settle s n out)"
proof (cases "find (\<lambda>t. caller t = n) (executing s)")
  case None then show ?thesis using assms by (simp add: settle_None)
next
  case (Some task)
  have "entries_invoked (settled_state s task out)"
    using assms unfolding entries_invoked_def by (auto simp add: settled_state_fields split: if_splits)
  then have "entries_invoked (processQueue (settled_state s task out))"
    by (rule processQueue_entries_invoked)
  then show ?thesis by (simp add: settle_Some[OF Some] Let_def entries_invoked_def)
qed

lemma enqueue_entries_invoked:
  assumes "entries_invoked s" shows "entries_invoked (fst (enqueue s k f))"
proof (cases "processing s k")
  case None
  let ?s1 = "s\<lparr>queue := queue s @ [\<lparr>id_t = k, fn = f, caller = created s\<rparr>], created := created s + 1\<rparr>"
  have "entries_invoked ?s1" using assms by (simp add: entries_invoked_def)
  then have "entries_invoked (processQueue ?s1)" by (rule processQueue_entries_invoked)
  then show ?thesis by (simp add: enqueue_new[OF None] Let_def entries_invoked_def)
next
  case (Some p) then show ?thesis using assms by (simp add: enqueue_join entries_invoked_def)
qed

lemma run_entries_invoked: "entries_invoked s \<Longrightarrow> entries_invoked (run s evs)"
proof (induction evs arbitrary: s)
  case Nil then show ?case by (simp add: run_Nil)
next
  case (Cons ev evs)
  have "entries_invoked (step s ev)"
    using Cons.prems by (cases ev) (simp_all add: enqueue_entries_invoked settle_entries_invoked)
  then show ?case by (simp add: run_Cons Cons.IH)
qed

lemma entries_invoked_new: "entries_invoked (AsyncQueue_new m)"
  by (simp add: entries_invoked_def AsyncQueue_new_def)

lemma settle_callers_logged:
  assumes "callers_logged s" shows "callers_logged (settle s n out)"
proof (cases "find (\<lambda>t. caller t = n) (executing s)")
  case None then show ?thesis using assms by (simp add: settle_None)
next
  case (Some task)
  let ?s2 = "settled_state s task out"
  have "set (queue (processQueue ?s2)) \<union> set (invoked (processQueue ?s2)) = set (queue s) \<union> set (invoked s)"
    by (simp add: processQueue_tasks settled_state_fields)
  moreover have "returned (processQueue ?s2) = returned s"
    by (simp add: processQueue_returned settled_state_fields)
  ultimately show ?thesis
    using assms by (simp add: settle_Some[OF Some] Let_def callers_logged_def)
qed

lemma enqueue_callers_logged:
  assumes "callers_logged s" shows "callers_logged (fst (enqueue s k f))"
proof (cases "processing s k")
  case None
  let ?task = "\<lparr>id_t = k, fn = f, caller = created s\<rparr>"
  let ?s1 = "s\<lparr>queue := queue s @ [?task], created := created s + 1\<rparr>"
  have "set (queue (processQueue ?s1)) \<union> set (invoked (processQueue ?s1))
          = insert ?task (set (queue s) \<union> set (invoked s))"
    by (simp add: processQueue_tasks)
  moreover have "returned (processQueue ?s1) = returned s"
    by (simp add: processQueue_returned)
  ultimately show ?thesis
    using assms by (auto simp add: enqueue_new[OF None] Let_def callers_logged_def)
next
  case (Some p) then show ?thesis using assms by (auto simp add: enqueue_join callers_logged_def)
qed

lemma run_callers_logged: "callers_logged s \<Longrightarrow> callers_logged (run s evs)"
proof (induction evs arbitrary: s)
  case Nil then show ?case by (simp add: run_Nil)
next
  case (Cons ev evs)
  have "callers_logged (step s ev)"
    using Cons.prems by (cases ev) (simp_all add: enqueue_callers_logged settle_callers_logged)
  then show ?case by (simp add: run_Cons Cons.IH)
qed

lemma callers_logged_new: "callers_logged (AsyncQueue_new m)"
  by (simp add: callers_logged_def AsyncQueue_new_def)

lemma enqueue_queued:
  assumes "processing s k = None" "maxConcurrent s \<le> currentlyProcessing s"
  shows "enqueue s k f =
     (s\<lparr>queue := queue s @ [\<lparr>id_t = k, fn = f, caller = created s\<rparr>], created := created s + 1,
        returned := returned s @ [(k, Caller (created s))]\<rparr>, Caller (created s))"
proof -
  let ?s1 = "s\<lparr>queue := queue s @ [\<lparr>id_t = k, fn = f, caller = created s\<rparr>], created := created s + 1\<rparr>"
  have "processQueue ?s1 = ?s1"
    by (rule processQueue_idle) (simp add: assms(2))
  then show ?thesis
    unfolding enqueue_new[OF assms(1)] Let_def by simp
qed

lemma run_queued:
  assumes "processing s k = None" "maxConcurrent s \<le> currentlyProcessing s"
  shows "run s (map (Enqueue k) fs) =
     s\<lparr>queue := queue s @ map (\<lambda>(n, f). \<lparr>id_t = k, fn = f, caller = n\<rparr>) (enumerate (created s) fs),
       created := created s + length fs,
       returned := returned s @ map (\<lambda>n. (k, Caller n)) [created s ..< created s + length fs]\<rparr>"
  using assms
proof (induction fs arbitrary: s)
  case Nil then show ?case by (simp add: run_Nil)
next
  case (Cons f fs)
  let ?s1 = "s\<lparr>queue := queue s @ [\<lparr>id_t = k, fn = f, caller = created s\<rparr>], created := created s + 1,
        returned := returned s @ [(k, Caller (created s))]\<rparr>"
  have st: "step s (Enqueue k f) = ?s1"
    using Cons.prems by (simp add: enqueue_queued)
  have ih: "run ?s1 (map (Enqueue k) fs) =
     ?s1\<lparr>queue := queue ?s1 @ map (\<lambda>(n, f). \<lparr>id_t = k, fn = f, caller = n\<rparr>) (enumerate (created ?s1) fs),
       created := created ?s1 + length fs,
       returned := returned ?s1 @ map (\<lambda>n. (k, Caller n)) [created ?s1 ..< created ?s1 + length fs]\<rparr>"
    using Cons.prems by (intro Cons.IH) simp_all
  show ?case
    unfolding list.map run_Cons st ih by (simp add: upt_conv_Cons del: upt_Suc)
qed

lemma first_call_any_fetch:
  assumes reach: "s = run (AsyncQueue_new m) evs"
      and absent: "processing s k = None"
      and slot: "currentlyProcessing s < maxConcurrent s"
  shows "invoked (run s (Enqueue k f # map (Enqueue k) fs))
           = invoked s @ [\<lparr>id_t = k, fn = f, caller = created s\<rparr>]
       \<and> returned (run s (Enqueue k f # map (Enqueue k) fs))
           = returned s @ (k, Caller (created s)) # replicate (length fs) (k, Inner (created s))"
proof (cases f)
  case Returns
  then show ?thesis
    using first_call_starts_fetch[OF reach absent slot refl, of fs undefined] by simp
next
  case (Throws e)
  let ?task = "\<lparr>id_t = k, fn = Throws e, caller = created s\<rparr>"
  have "no_idle_slot s" unfolding reach by (intro run_no_idle_slot no_idle_slot_new)
  with slot have q: "queue s = []" by (simp add: no_idle_slot_def)
  define s1 where "s1 = s\<lparr>queue := queue s @ [?task], created := created s + 1\<rparr>"
  define s4 where "s4 = thrown_state s1 ?task [] e"
  have idle: "processQueue s4 = s4"
    by (rule processQueue_idle) (simp add: s4_def thrown_state_fields)
  have p1: "processQueue s1 =
      s4\<lparr>promises := (promises s4)(Inner (caller ?task) \<mapsto> Rejected e),
         processing := (processing s4)(id_t ?task \<mapsto> Inner (caller ?task))\<rparr>"
    using processQueue_Throws[of s1 ?task "[]" e] slot q idle
    by (simp add: s1_def s4_def Let_def)
  define s3 where "s3 = (processQueue s1)\<lparr>returned := returned (processQueue s1) @ [(k, Caller (created s))]\<rparr>"
  have e1: "step s (Enqueue k (Throws e)) = s3"
    using absent by (simp add: enqueue_new Let_def s1_def s3_def)
  have pr3: "processing s3 k = Some (Inner (created s))"
    by (simp add: s3_def p1)
  have s': "run s (Enqueue k (Throws e) # map (Enqueue k) fs)
              = s3\<lparr>returned := returned s3 @ replicate (length fs) (k, Inner (created s))\<rparr>"
    unfolding run_Cons e1 using pr3 by (rule run_joins)
  show ?thesis
    unfolding Throws s' s3_def p1 by (simp add: s4_def thrown_state_fields s1_def)
qed

text \<open>
  Claim C1 (single flight), as the code has it. Calls are deduplicated against the entries of
  \<^verbatim>\<open>processing\<close> and nothing else, in every state reached by any events.

  \<^item> While the key has an entry, any number of \<^verbatim>\<open>enqueue\<close> calls for the key return the
    promise of that entry and no fetch function is called. The entry holds the promise of the
    arrow function of a task of this key whose fetch function has been called, and the call
    that created this task has returned the promise of its caller.
  \<^item> The two promises of a task are resolved with the same value, in every state; when the
    fetch function of an executing task resolves with \<open>v\<close>, both are resolved with \<open>v\<close> and
    stay so.
  \<^item> While the key has no entry and a slot is free, of any number of calls for the key that
    follow one another only the fetch function of the first is called; the first caller gets
    the promise of the new task and every other caller the promise stored in \<^verbatim>\<open>processing\<close>.
    When the fetch function returns a promise, both promises are pending, and when it
    resolves with \<open>v\<close> both are resolved with \<open>v\<close>.
  \<^item> While the key has no entry and no slot is free, every call for the key puts a task of
    its own into the queue and gets a promise of its own, whatever waits in the queue already.
\<close>

theorem concurrent_calls_share_one_fetch:
  assumes reach: "s = run (AsyncQueue_new m) evs"
  shows "(\<forall>p. processing s k = Some p \<longrightarrow>
            run s (map (Enqueue k) fs) = s\<lparr>returned := returned s @ replicate (length fs) (k, p)\<rparr>
            \<and> (\<exists>t \<in> set (invoked s). id_t t = k \<and> p = Inner (caller t)
                  \<and> (k, Caller (caller t)) \<in> set (returned s)))
       \<and> (\<forall>n v. (promises s (Inner n) = Some (Resolved v)) = (promises s (Caller n) = Some (Resolved v)))
       \<and> (\<forall>t \<in> set (executing s). \<forall>evs'.
            promises (run (settle s (caller t) (Resolved v)) evs') (Caller (caller t)) = Some (Resolved v)
            \<and> promises (run (settle s (caller t) (Resolved v)) evs') (Inner (caller t)) = Some (Resolved v))
       \<and> (processing s k = None \<and> currentlyProcessing s < maxConcurrent s \<longrightarrow>
            invoked (run s (Enqueue k f # map (Enqueue k) fs))
              = invoked s @ [\<lparr>id_t = k, fn = f, caller = created s\<rparr>]
            \<and> returned (run s (Enqueue k f # map (Enqueue k) fs))
              = returned s @ (k, Caller (created s)) # replicate (length fs) (k, Inner (created s))
            \<and> (f = Returns \<longrightarrow>
                 promises (run s (Enqueue k f # map (Enqueue k) fs)) (Caller (created s)) = None
                 \<and> promises (run s (Enqueue k f # map (Enqueue k) fs)) (Inner (created s)) = None
                 \<and> promises (settle (run s (Enqueue k f # map (Enqueue k) fs)) (created s) (Resolved v))
                      (Caller (created s)) = Some (Resolved v)
                 \<and> promises (settle (run s (Enqueue k f # map (Enqueue k) fs)) (created s) (Resolved v))
                      (Inner (created s)) = Some (Resolved v)))
       \<and> (processing s k = None \<and> maxConcurrent s \<le> currentlyProcessing s \<longrightarrow>
            run s (map (Enqueue k) fs) =
              s\<lparr>queue := queue s @ map (\<lambda>(n, f). \<lparr>id_t = k, fn = f, caller = n\<rparr>) (enumerate (created s) fs),
                created := created s + length fs,
                returned := returned s @ map (\<lambda>n. (k, Caller n)) [created s ..< created s + length fs]\<rparr>)"
proof -
  have w: "tasks_ok s" unfolding reach by (intro run_tasks_ok tasks_ok_new)
  have pa: "paired s" unfolding reach by (intro run_paired tasks_ok_new paired_new)
  have ei: "entries_invoked s" unfolding reach by (intro run_entries_invoked entries_invoked_new)
  have cl: "callers_logged s" unfolding reach by (intro run_callers_logged callers_logged_new)
  have join: "run s (map (Enqueue k) fs) = s\<lparr>returned := returned s @ replicate (length fs) (k, p)\<rparr>
            \<and> (\<exists>t \<in> set (invoked s). id_t t = k \<and> p = Inner (caller t)
                  \<and> (k, Caller (caller t)) \<in> set (returned s))"
    if p: "processing s k = Some p" for p
  proof -
    from ei p obtain t where t: "t \<in> set (invoked s)" "id_t t = k" "p = Inner (caller t)"
      unfolding entries_invoked_def by blast
    from cl t(1) have "(id_t t, Caller (caller t)) \<in> set (returned s)"
      unfolding callers_logged_def by simp
    with t show ?thesis using run_joins[OF p] by blast
  qed
  have same: "(promises s (Inner n) = Some (Resolved v)) = (promises s (Caller n) = Some (Resolved v))"
    for n and v :: 'a
  proof -
    have "promises s (Caller n) =
            map_option (\<lambda>out. case out of Resolved v \<Rightarrow> Resolved v | Rejected e \<Rightarrow> Rejected (as_Error e))
              (promises s (Inner n))"
      using pa unfolding paired_def by simp
    then show ?thesis
      by (cases "promises s (Inner n)") (auto split: outcome.splits)
  qed
  have res: "promises (run (settle s (caller t) (Resolved v)) evs') (Caller (caller t)) = Some (Resolved v)
            \<and> promises (run (settle s (caller t) (Resolved v)) evs') (Inner (caller t)) = Some (Resolved v)"
    if "t \<in> set (executing s)" for t evs'
    using settle_outcome[OF w that, of "Resolved v" evs'] by simp
  have fresh: "invoked (run s (Enqueue k f # map (Enqueue k) fs))
              = invoked s @ [\<lparr>id_t = k, fn = f, caller = created s\<rparr>]
            \<and> returned (run s (Enqueue k f # map (Enqueue k) fs))
              = returned s @ (k, Caller (created s)) # replicate (length fs) (k, Inner (created s))
            \<and> (f = Returns \<longrightarrow>
                 promises (run s (Enqueue k f # map (Enqueue k) fs)) (Caller (created s)) = None
                 \<and> promises (run s (Enqueue k f # map (Enqueue k) fs)) (Inner (created s)) = None
                 \<and> promises (settle (run s (Enqueue k f # map (Enqueue k) fs)) (created s) (Resolved v))
                      (Caller (created s)) = Some (Resolved v)
                 \<and> promises (settle (run s (Enqueue k f # map (Enqueue k) fs)) (created s) (Resolved v))
                      (Inner (created s)) = Some (Resolved v))"
    if "processing s k = None \<and> currentlyProcessing s < maxConcurrent s"
  proof -
    from that have absent: "processing s k = None" and slot: "currentlyProcessing s < maxConcurrent s"
      by simp_all
    show ?thesis
      using first_call_any_fetch[OF reach absent slot, of f fs]
        first_call_starts_fetch[OF reach absent slot refl, of fs v]
      by simp
  qed
  have queued: "run s (map (Enqueue k) fs) =
              s\<lparr>queue := queue s @ map (\<lambda>(n, f). \<lparr>id_t = k, fn = f, caller = n\<rparr>) (enumerate (created s) fs),
                created := created s + length fs,
                returned := returned s @ map (\<lambda>n. (k, Caller n)) [created s ..< created s + length fs]\<rparr>"
    if "processing s k = None \<and> maxConcurrent s \<le> currentlyProcessing s"
    using that by (intro run_queued) simp_all
  show ?thesis
    using join same res fresh queued by blast
qed

text \<open>
  The theorem in three states. With two slots and the key 7 being fetched: two more calls
  for the key 7 join its task, and its two promises are resolved with 5 when the fetch
  resolves with 5; of three calls for the key 42 the first one starts a task and the others
  join it. With one slot and the key 7 being fetched: two calls for the key 42 put two tasks
  into the queue.
\<close>

theorem concurrent_calls_share_one_fetch_witness:
  "processing (run (AsyncQueue_new 2 :: nat AsyncQueue) [Enqueue ''7'' Returns]) ''7'' = Some (Inner 0)
   \<and> run (AsyncQueue_new 2 :: nat AsyncQueue)
       [Enqueue ''7'' Returns, Enqueue ''7'' Returns, Enqueue ''7'' (Throws (NotError ''x''))]
     = (run (AsyncQueue_new 2 :: nat AsyncQueue) [Enqueue ''7'' Returns])
         \<lparr>returned := [(''7'', Caller 0), (''7'', Inner 0), (''7'', Inner 0)]\<rparr>
   \<and> executing (run (AsyncQueue_new 2 :: nat AsyncQueue) [Enqueue ''7'' Returns])
       = [\<lparr>id_t = ''7'', fn = Returns, caller = 0\<rparr>]
   \<and> promises (settle (run (AsyncQueue_new 2 :: nat AsyncQueue) [Enqueue ''7'' Returns]) 0 (Resolved 5))
       = [Caller 0 \<mapsto> Resolved 5, Inner 0 \<mapsto> Resolved 5]
   \<and> processing (run (AsyncQueue_new 2 :: nat AsyncQueue) [Enqueue ''7'' Returns]) ''42'' = None
   \<and> currentlyProcessing (run (AsyncQueue_new 2 :: nat AsyncQueue) [Enqueue ''7'' Returns])
       < maxConcurrent (run (AsyncQueue_new 2 :: nat AsyncQueue) [Enqueue ''7'' Returns])
   \<and> invoked (run (AsyncQueue_new 2 :: nat AsyncQueue)
      [Enqueue ''7'' Returns, Enqueue ''42'' Returns, Enqueue ''42'' Returns, Enqueue ''42'' (Throws (NotError ''x''))])
     = [\<lparr>id_t = ''7'', fn = Returns, caller = 0\<rparr>, \<lparr>id_t = ''42'', fn = Returns, caller = 1\<rparr>]
   \<and> returned (run (AsyncQueue_new 2 :: nat AsyncQueue)
      [Enqueue ''7'' Returns, Enqueue ''42'' Returns, Enqueue ''42'' Returns, Enqueue ''42'' (Throws (NotError ''x''))])
     = [(''7'', Caller 0), (''42'', Caller 1), (''42'', Inner 1), (''42'', Inner 1)]
   \<and> processing (run (AsyncQueue_new 1 :: nat AsyncQueue) [Enqueue ''7'' Returns]) ''42'' = None
   \<and> maxConcurrent (run (AsyncQueue_new 1 :: nat AsyncQueue) [Enqueue ''7'' Returns])
       \<le> currentlyProcessing (run (AsyncQueue_new 1 :: nat AsyncQueue) [Enqueue ''7'' Returns])
   \<and> queue (run (AsyncQueue_new 1 :: nat AsyncQueue)
      [Enqueue ''7'' Returns, Enqueue ''42'' Returns, Enqueue ''42'' Returns])
     = [\<lparr>id_t = ''42'', fn = Returns, caller = 1\<rparr>, \<lparr>id_t = ''42'', fn = Returns, caller = 2\<rparr>]
   \<and> returned (run (AsyncQueue_new 1 :: nat AsyncQueue)
      [Enqueue ''7'' Returns, Enqueue ''42'' Returns, Enqueue ''42'' Returns])
     = [(''7'', Caller 0), (''42'', Caller 1), (''42'', Caller 2)]"
  using concurrent_calls_share_one_fetch
    [OF refl, where m = 2 and evs = "[Enqueue ''7'' Returns :: nat event]" and k = "''7''"
       and fs = "[Returns, Throws (NotError ''x'')]" and v = 5 and f = Returns]
    concurrent_calls_share_one_fetch
    [OF refl, where m = 2 and evs = "[Enqueue ''7'' Returns :: nat event]" and k = "''42''"
       and fs = "[Returns, Throws (NotError ''x'')]" and v = 5 and f = Returns]
    concurrent_calls_share_one_fetch
    [OF refl, where m = 1 and evs = "[Enqueue ''7'' Returns :: nat event]" and k = "''42''"
       and fs = "[Returns, Returns]" and v = 5 and f = Returns]
  by (simp add: run_def AsyncQueue_new_def enqueue_def settle_def Let_def processQueue.simps call_fn_def
        settle_caller_def finally_block_def settle_inner_def)

text \<open>
  Claim C1 as stated fails for calls made while a task of the key waits or executes without
  an entry in \<^verbatim>\<open>processing\<close>.

  \<^item> With \<^verbatim>\<open>maxConcurrent = 1\<close> and the key \<open>a\<close> executing, two calls for the key \<open>b\<close> are
    both put into the queue (a waiting task has no entry); both fetch functions are called in
    turn, and the two callers get different results.
  \<^item> With two slots taken by the keys \<open>a\<close> and \<open>c\<close>, two calls for the key \<open>b\<close> put the tasks
    number 2 and 3 into the queue. Both are started when \<open>a\<close> and \<open>c\<close> have settled, and the
    entry of the key then holds the promise of the task 3. When the task 2 settles, its
    \<^verbatim>\<open>finally\<close> block deletes this entry. The next call for \<open>b\<close> finds no entry and starts
    one more fetch, while the task 3 executes.
\<close>

theorem queued_call_not_deduplicated:
  "let s = run (AsyncQueue_new 1 :: nat AsyncQueue)
             [Enqueue ''a'' Returns, Enqueue ''b'' Returns, Enqueue ''b'' Returns];
       s' = run s [Settle 0 (Resolved 10), Settle 1 (Resolved 11), Settle 2 (Resolved 12)];
       u = run (AsyncQueue_new 2 :: nat AsyncQueue)
             [Enqueue ''a'' Returns, Enqueue ''c'' Returns, Enqueue ''b'' Returns, Enqueue ''b'' Returns,
              Settle 0 (Resolved 10), Settle 1 (Resolved 11), Settle 2 (Resolved 12)]
   in map id_t (executing s) = [''a''] \<and> map id_t (queue s) = [''b'', ''b'']
      \<and> returned s = [(''a'', Caller 0), (''b'', Caller 1), (''b'', Caller 2)]
      \<and> map id_t (invoked s') = [''a'', ''b'', ''b'']
      \<and> promises s' (Caller 1) = Some (Resolved 11)
      \<and> promises s' (Caller 2) = Some (Resolved 12)
      \<and> executing u = [\<lparr>id_t = ''b'', fn = Returns, caller = 3\<rparr>]
      \<and> processing u ''b'' = None
      \<and> snd (enqueue u ''b'' Returns) = Caller 4
      \<and> map id_t (invoked (fst (enqueue u ''b'' Returns))) = [''a'', ''c'', ''b'', ''b'', ''b'']"
  by (simp add: run_def AsyncQueue_new_def enqueue_def settle_def Let_def processQueue.simps
        call_fn_def settle_caller_def finally_block_def settle_inner_def)

text \<open>
  Claim C6 (failure propagation), as the code has it. When the promise of an executing task's
  fetch function is rejected with \<open>error\<close>, the two promises of the task, pending until
  then, are rejected and stay so whatever happens later: the promise of the caller who
  started the task with \<^verbatim>\<open>error instanceof Error ? error : new Error('Unknown error')\<close>, the
  promise that the joining callers hold with \<open>error\<close> itself. The two are the same when
  \<open>error\<close> is an instance of \<^verbatim>\<open>Error\<close>.
\<close>

theorem failure_reaches_all_waiters:
  assumes reach: "s = run (AsyncQueue_new m) evs"
      and ex: "task \<in> set (executing s)"
      and s': "s' = settle s (caller task) (Rejected error)"
  shows "promises s (Caller (caller task)) = None \<and> promises s (Inner (caller task)) = None
       \<and> (\<forall>evs'. promises (run s' evs') (Caller (caller task)) = Some (Rejected (as_Error error))
                 \<and> promises (run s' evs') (Inner (caller task)) = Some (Rejected error))
       \<and> (\<forall>e. error = IsError e \<longrightarrow> as_Error error = error)"
proof -
  have w: "tasks_ok s" unfolding reach by (intro run_tasks_ok tasks_ok_new)
  have pend: "promises s (Caller (caller task)) = None \<and> promises s (Inner (caller task)) = None"
    using w ex unfolding tasks_ok_def by simp
  have "distinct (map caller (executing s))" using w unfolding tasks_ok_def by simp
  then have fnd: "find (\<lambda>t. caller t = caller task) (executing s) = Some task"
    using ex by (rule find_caller_distinct)
  let ?s2 = "settled_state s task (Rejected error)"
  have "tasks_ok ?s2" using w ex by (rule tasks_ok_settled_state)
  moreover have "promises ?s2 (Caller (caller task)) = Some (Rejected (as_Error error))"
    by (simp add: settled_state_fields)
  ultimately have "promises (processQueue ?s2) (Caller (caller task)) = Some (Rejected (as_Error error))"
    by (rule processQueue_promises)
  then have c: "promises s' (Caller (caller task)) = Some (Rejected (as_Error error))"
    and i: "promises s' (Inner (caller task)) = Some (Rejected error)"
    unfolding s' by (simp_all add: settle_Some[OF fnd] Let_def)
  have w': "tasks_ok s'" unfolding s' using w by (rule settle_tasks_ok)
  have "\<forall>evs'. promises (run s' evs') (Caller (caller task)) = Some (Rejected (as_Error error))
                 \<and> promises (run s' evs') (Inner (caller task)) = Some (Rejected error)"
    using w' c i by (simp add: run_promises)
  moreover have "\<forall>e. error = IsError e \<longrightarrow> as_Error error = error"
    by (simp add: as_Error_def)
  ultimately show ?thesis using pend by blast
qed

text \<open>
  The theorem for a task with one joining caller, whose fetch fails with an \<^verbatim>\<open>Error\<close>; a
  later call for the key does not change the two promises.
\<close>

theorem failure_reaches_all_waiters_witness:
  "\<lparr>id_t = ''9'', fn = Returns, caller = 0\<rparr>
     \<in> set (executing (run (AsyncQueue_new 2 :: nat AsyncQueue) [Enqueue ''9'' Returns, Enqueue ''9'' Returns]))
   \<and> promises (run (AsyncQueue_new 2 :: nat AsyncQueue)
       [Enqueue ''9'' Returns, Enqueue ''9'' Returns, Settle 0 (Rejected (IsError ''not found'')),
        Enqueue ''9'' Returns]) (Caller 0) = Some (Rejected (IsError ''not found''))
   \<and> promises (run (AsyncQueue_new 2 :: nat AsyncQueue)
       [Enqueue ''9'' Returns, Enqueue ''9'' Returns, Settle 0 (Rejected (IsError ''not found'')),
        Enqueue ''9'' Returns]) (Inner 0) = Some (Rejected (IsError ''not found''))"
  using failure_reaches_all_waiters
    [of "run (AsyncQueue_new 2 :: nat AsyncQueue) [Enqueue ''9'' Returns, Enqueue ''9'' Returns]" 2
        "[Enqueue ''9'' Returns, Enqueue ''9'' Returns]"
        "\<lparr>id_t = ''9'', fn = Returns, caller = 0\<rparr>"
        "settle (run (AsyncQueue_new 2 :: nat AsyncQueue) [Enqueue ''9'' Returns, Enqueue ''9'' Returns]) 0
           (Rejected (IsError ''not found''))"
        "IsError ''not found''"]
  by (simp add: run_def AsyncQueue_new_def enqueue_def settle_def Let_def processQueue.simps
        call_fn_def settle_caller_def finally_block_def settle_inner_def as_Error_def)

text \<open>
  Claim C6 as stated fails when the fetch function fails with a value that is not an
  \<^verbatim>\<open>Error\<close>: the caller who started the task receives a new \<^verbatim>\<open>Error('Unknown error')\<close>,
  the caller who joined receives the value itself.
\<close>

theorem non_Error_failure_differs:
  "let s = run (AsyncQueue_new 2 :: nat AsyncQueue)
             [Enqueue ''9'' Returns, Enqueue ''9'' Returns, Settle 0 (Rejected (NotError ''timeout''))]
   in returned s = [(''9'', Caller 0), (''9'', Inner 0)]
      \<and> promises s (Caller 0) = Some (Rejected (IsError ''Unknown error''))
      \<and> promises s (Inner 0) = Some (Rejected (NotError ''timeout''))"
  by (simp add: run_def AsyncQueue_new_def enqueue_def settle_def Let_def processQueue.simps
        call_fn_def settle_caller_def finally_block_def settle_inner_def as_Error_def)

text \<open>
  With fetch functions that return a promise, the entry of a task is gone when its promise has
  settled. When the promise of an executing task settles, the step that settles the two
  promises of the task (the waiters run after this step) also removes the entry of the task:
  in the state after it and in every later state no entry of \<^verbatim>\<open>processing\<close> holds a promise
  of the task, and no \<^verbatim>\<open>enqueue\<close> call returns one. A later call for a key without an entry
  creates a task of its own, whose fetch function is called at once when a slot is free; a
  later call for a key with an entry joins a task that is executing at that time, whose
  promise is pending.
\<close>

lemma fresh_fetch_when_fetch_returns:
  assumes o: "only_returns evs" "only_returns evs'"
      and reach: "s = run (AsyncQueue_new m) evs"
      and ex: "task \<in> set (executing s)"
      and later: "s' = run (settle s (caller task) out) evs'"
  shows "promises s' (Caller (caller task)) \<noteq> None \<and> promises s' (Inner (caller task)) = Some out
       \<and> processing s' k \<noteq> Some (Inner (caller task))
       \<and> processing s' k \<noteq> Some (Caller (caller task))
       \<and> snd (enqueue s' k f) \<noteq> Inner (caller task)
       \<and> snd (enqueue s' k f) \<noteq> Caller (caller task)
       \<and> (processing s' k = None \<longrightarrow>
            snd (enqueue s' k f) = Caller (created s')
            \<and> (currentlyProcessing s' < maxConcurrent s' \<longrightarrow>
                 invoked (fst (enqueue s' k Returns))
                   = invoked s' @ [\<lparr>id_t = k, fn = Returns, caller = created s'\<rparr>]))
       \<and> (\<forall>p. processing s' k = Some p \<longrightarrow>
            snd (enqueue s' k f) = p \<and> promises s' p = None
            \<and> (\<exists>t \<in> set (executing s'). p = Inner (caller t) \<and> id_t t = k))"
proof -
  have w: "tasks_ok s" unfolding reach by (intro run_tasks_ok tasks_ok_new)
  have e: "entries_live s" unfolding reach
    using o(1) entries_live_new tasks_ok_new by (rule run_entries_live)
  have w1: "tasks_ok (settle s (caller task) out)" using w by (rule settle_tasks_ok)
  have e1: "entries_live (settle s (caller task) out)" using e w by (rule settle_entries_live)
  have w': "tasks_ok s'" unfolding later using w1 by (rule run_tasks_ok)
  have e': "entries_live s'" unfolding later using o(2) e1 w1 by (rule run_entries_live)
  have ni: "no_idle_slot s'" unfolding later reach
    by (intro run_no_idle_slot settle_no_idle_slot no_idle_slot_new)
  have settled: "promises s' (Caller (caller task)) \<noteq> None"
    "promises s' (Inner (caller task)) = Some out"
    unfolding later using settle_outcome[OF w ex, of out evs'] by simp_all
  have entry: "promises s' p = None \<and> (\<exists>t \<in> set (executing s'). p = Inner (caller t) \<and> id_t t = k)"
    if "processing s' k = Some p" for p
  proof -
    from that e' obtain t where t: "t \<in> set (executing s')" "p = Inner (caller t)" "id_t t = k"
      unfolding entries_live_def by blast
    then have "promises s' p = None" using w' unfolding tasks_ok_def by simp
    then show ?thesis using t by blast
  qed
  have n1: "processing s' k \<noteq> Some (Inner (caller task))"
    and n2: "processing s' k \<noteq> Some (Caller (caller task))"
    using entry settled by force+
  have lt: "caller task < created s'"
  proof (rule ccontr)
    assume "\<not> caller task < created s'"
    then have "promises s' (Inner (caller task)) = None" using w' unfolding tasks_ok_def by simp
    then show False using settled(2) by simp
  qed
  have j: "snd (enqueue s' k f) \<noteq> Inner (caller task) \<and> snd (enqueue s' k f) \<noteq> Caller (caller task)"
  proof (cases "processing s' k")
    case None then show ?thesis using lt by (simp add: enqueue_new Let_def)
  next
    case (Some p) then show ?thesis using n1 n2 by (simp add: enqueue_join)
  qed
  have fresh: "processing s' k = None \<longrightarrow>
            snd (enqueue s' k f) = Caller (created s')
            \<and> (currentlyProcessing s' < maxConcurrent s' \<longrightarrow>
                 invoked (fst (enqueue s' k Returns))
                   = invoked s' @ [\<lparr>id_t = k, fn = Returns, caller = created s'\<rparr>])"
  proof (intro impI conjI)
    assume none: "processing s' k = None"
    then show "snd (enqueue s' k f) = Caller (created s')" by (simp add: enqueue_new Let_def)
    assume slot: "currentlyProcessing s' < maxConcurrent s'"
    with ni have "queue s' = []" by (simp add: no_idle_slot_def)
    with none slot show "invoked (fst (enqueue s' k Returns))
                   = invoked s' @ [\<lparr>id_t = k, fn = Returns, caller = created s'\<rparr>]"
      by (intro enqueue_Returns_free)
  qed
  have join: "\<forall>p. processing s' k = Some p \<longrightarrow>
            snd (enqueue s' k f) = p \<and> promises s' p = None
            \<and> (\<exists>t \<in> set (executing s'). p = Inner (caller t) \<and> id_t t = k)"
    using entry by (simp add: enqueue_join)
  show ?thesis using settled n1 n2 j fresh join by blast
qed

text \<open>
  Claim C5 (fresh fetch after settlement) at a fetch function that throws when it is called,
  where another one would return a rejected promise. The task fails inside
  \<^verbatim>\<open>processQueue\<close>: both promises are rejected and the \<^verbatim>\<open>finally\<close> block has run (it
  found no entry to delete) before \<^verbatim>\<open>processing.set(task.id, promise)\<close>, so the entry of the
  finished task stays in \<^verbatim>\<open>processing\<close> while nothing is executing or waiting. The two calls
  for the key that follow get the rejected promise of the finished task, and their fetch
  functions are never called.
\<close>

theorem stale_entry_after_sync_throw:
  "let s = run (AsyncQueue_new 10 :: nat AsyncQueue) [Enqueue ''7'' (Throws (IsError ''boom''))];
       s' = run s [Enqueue ''7'' Returns, Enqueue ''7'' Returns]
   in executing s = [] \<and> queue s = [] \<and> currentlyProcessing s = 0
      \<and> promises s (Caller 0) = Some (Rejected (IsError ''boom''))
      \<and> promises s (Inner 0) = Some (Rejected (IsError ''boom''))
      \<and> processing s ''7'' = Some (Inner 0)
      \<and> returned s' = [(''7'', Caller 0), (''7'', Inner 0), (''7'', Inner 0)]
      \<and> map caller (invoked s') = [0] \<and> created s' = 1"
  by (simp add: run_def AsyncQueue_new_def enqueue_def settle_def Let_def processQueue.simps
        call_fn_def settle_caller_def finally_block_def settle_inner_def as_Error_def)

section \<open>Properties of the cache\<close>

lemma pred_in_Cons: "pred_in (a # as) b = (if first_opt as = Some b then Some a else pred_in as b)"
  by (cases as) (auto simp add: first_opt_def)

lemma succ_in_Cons: "succ_in (a # as) b = (if b = a then first_opt as else succ_in as b)"
  by (cases as) (auto simp add: first_opt_def)

lemma first_opt_simps [simp]: "first_opt [] = None" "first_opt (a # as) = Some a"
  by (simp_all add: first_opt_def)

lemma last_opt_simps [simp]: "last_opt [] = None" "last_opt (a # as) = Some (last (a # as))"
  by (simp_all add: last_opt_def)

lemma first_opt_mem: "first_opt as = Some b \<Longrightarrow> b \<in> set as"
  by (cases as) auto

lemma last_opt_mem: "last_opt as = Some b \<Longrightarrow> b \<in> set as"
  by (cases as) (auto split: if_splits)

lemma pred_in_mem: "pred_in as b = Some p \<Longrightarrow> p \<in> set as \<and> b \<in> set as"
  by (induction as b rule: pred_in.induct) (auto split: if_splits)

lemma succ_in_mem: "succ_in as a = Some n \<Longrightarrow> n \<in> set as \<and> a \<in> set as"
  by (induction as a rule: succ_in.induct) (auto split: if_splits)

lemma pred_in_notin: "b \<notin> set as \<Longrightarrow> pred_in as b = None"
  by (induction as b rule: pred_in.induct) auto

lemma succ_in_notin: "a \<notin> set as \<Longrightarrow> succ_in as a = None"
  by (induction as a rule: succ_in.induct) auto

lemma pred_in_head: "distinct (a # as) \<Longrightarrow> pred_in (a # as) a = None"
  by (cases as) (auto simp add: pred_in_notin)

lemma succ_in_tl: "succ_in as a = Some n \<Longrightarrow> n \<in> set (tl as)"
  by (induction as a rule: succ_in.induct) (auto split: if_splits)

lemma pred_in_tl: "pred_in as b = Some p \<Longrightarrow> b \<in> set (tl as)"
  by (induction as b rule: pred_in.induct) (auto split: if_splits)

lemma pred_in_first: "distinct as \<Longrightarrow> first_opt as = Some b \<Longrightarrow> pred_in as b = None"
  by (cases as) (auto simp add: pred_in_head)

lemma pred_succ: "distinct as \<Longrightarrow> pred_in as b = Some a \<longleftrightarrow> succ_in as a = Some b"
proof (induction as b rule: pred_in.induct)
  case (3 x y ys b)
  then show ?case
    using pred_in_mem[of "y # ys" b a] succ_in_mem[of "y # ys" a b] succ_in_tl[of "y # ys" a y]
    by auto
qed auto

lemma pred_in_None: "distinct as \<Longrightarrow> b \<in> set as \<Longrightarrow> pred_in as b = None \<longleftrightarrow> first_opt as = Some b"
proof (induction as b rule: pred_in.induct)
  case (3 x y ys b)
  then show ?case by (auto simp add: pred_in_notin)
qed auto

lemma succ_in_None: "distinct as \<Longrightarrow> a \<in> set as \<Longrightarrow> succ_in as a = None \<longleftrightarrow> last_opt as = Some a"
proof (induction as a rule: succ_in.induct)
  case (3 x y ys a)
  then show ?case by (auto simp add: succ_in_notin)
qed auto

lemma pred_in_neq: "distinct as \<Longrightarrow> pred_in as b \<noteq> Some b"
proof (induction as b rule: pred_in.induct)
  case (3 x y ys b)
  then show ?case by auto
qed auto

lemma succ_in_neq: "distinct as \<Longrightarrow> succ_in as a \<noteq> Some a"
proof (induction as a rule: succ_in.induct)
  case (3 x y ys a)
  then show ?case by auto
qed auto

lemma first_opt_remove1:
  "distinct as \<Longrightarrow> first_opt (remove1 a as) = (if first_opt as = Some a then succ_in as a else first_opt as)"
  by (cases as) (auto simp add: succ_in_Cons first_opt_def split: list.splits)

lemma succ_in_remove1:
  "distinct as \<Longrightarrow> b \<noteq> a \<Longrightarrow>
   succ_in (remove1 a as) b = (if succ_in as b = Some a then succ_in as a else succ_in as b)"
proof (induction as)
  case Nil then show ?case by simp
next
  case (Cons x as)
  show ?case
  proof (cases "x = a")
    case True
    then show ?thesis using Cons.prems
      by (auto simp add: succ_in_Cons succ_in_notin dest: succ_in_mem)
  next
    case False
    then show ?thesis using Cons
      by (auto simp add: succ_in_Cons first_opt_remove1 dest: succ_in_mem)
  qed
qed

lemma pred_in_remove1:
  "distinct as \<Longrightarrow> b \<noteq> a \<Longrightarrow>
   pred_in (remove1 a as) b = (if pred_in as b = Some a then pred_in as a else pred_in as b)"
proof (induction as)
  case Nil then show ?case by simp
next
  case (Cons x as)
  show ?case
  proof (cases "x = a")
    case True
    then show ?thesis using Cons.prems
      by (auto simp add: pred_in_Cons pred_in_notin pred_in_first dest: pred_in_mem)
  next
    case False
    then show ?thesis using Cons
      by (auto simp add: pred_in_Cons first_opt_remove1 pred_succ dest: pred_in_mem)
  qed
qed

lemma last_opt_remove1:
  "distinct as \<Longrightarrow> a \<in> set as \<Longrightarrow>
   last_opt (remove1 a as) = (if last_opt as = Some a then pred_in as a else last_opt as)"
proof (induction as)
  case Nil then show ?case by simp
next
  case (Cons x as)
  show ?case
  proof (cases as)
    case Nil then show ?thesis using Cons.prems by simp
  next
    case (Cons y ys)
    show ?thesis
    proof (cases "x = a")
      case True
      then show ?thesis using Cons.prems Cons by (auto simp add: pred_in_notin)
    next
      case False
      then have "a \<in> set as" using Cons.prems by simp
      then have IH: "last_opt (remove1 a as) = (if last_opt as = Some a then pred_in as a else last_opt as)"
        using Cons.IH Cons.prems by simp
      show ?thesis
      proof (cases "y = a")
        case True
        then have "a \<notin> set ys" using Cons.prems \<open>as = y # ys\<close> by simp
        then show ?thesis using True False \<open>as = y # ys\<close>
          by (cases ys) (auto simp add: pred_in_notin)
      next
        case ya: False
        then have ne: "remove1 a as \<noteq> []" using \<open>as = y # ys\<close> by simp
        have "pred_in (x # as) a = pred_in as a"
          using ya \<open>as = y # ys\<close> by simp
        then show ?thesis
          using IH ne False \<open>as = y # ys\<close> by (simp add: last_opt_def)
      qed
    qed
  qed
qed

lemma assign_apply: "assign h a f b = (if b = a then map_option f (h a) else h b)"
  by (simp add: assign_def split: option.splits)

lemma removeNode_eq:
  assumes "heap s a = Some node" "prev node \<noteq> Some a"
  shows "removeNode s a =
     s\<lparr>heap := (\<lambda>b. map_option
                  (\<lambda>m. m\<lparr>nxt := (if prev node = Some b then nxt node else nxt m),
                          prev := (if nxt node = Some b then prev node else prev m)\<rparr>) (heap s b)),
       head := (if prev node = None then nxt node else head s),
       tail := (if nxt node = None then prev node else tail s)\<rparr>"
proof (cases "prev node")
  case None
  show ?thesis
  proof (cases "nxt node")
    case n: None
    have "(\<lambda>b. map_option (\<lambda>m. m) (heap s b)) = heap s"
      by (simp add: option.map_ident)
    then show ?thesis using assms None n by (simp add: removeNode_def cong: if_cong)
  next
    case (Some n)
    have "assign (heap s) n (prev_update (\<lambda>_. None)) =
          (\<lambda>b. map_option (\<lambda>m. m\<lparr>prev := if Some n = Some b then None else prev m\<rparr>) (heap s b))"
      by (rule ext) (auto simp add: assign_apply option.map_ident cong: option.map_cong)
    then show ?thesis using assms None Some by (simp add: removeNode_def cong: if_cong)
  qed
next
  case (Some p)
  with assms have pa: "p \<noteq> a" by simp
  have h1: "assign (heap s) p (nxt_update (\<lambda>_. nxt node)) a = Some node"
    using assms pa by (simp add: assign_apply)
  show ?thesis
  proof (cases "nxt node")
    case None
    have "assign (heap s) p (nxt_update (\<lambda>_. None)) =
          (\<lambda>b. map_option (\<lambda>m. m\<lparr>nxt := if Some p = Some b then None else nxt m\<rparr>) (heap s b))"
      by (rule ext) (auto simp add: assign_apply option.map_ident cong: option.map_cong)
    then show ?thesis using assms Some None h1 by (simp add: removeNode_def cong: if_cong)
  next
    case n: (Some n)
    have "assign (assign (heap s) p (nxt_update (\<lambda>_. Some n))) n (prev_update (\<lambda>_. Some p)) =
          (\<lambda>b. map_option (\<lambda>m. m\<lparr>nxt := if Some p = Some b then Some n else nxt m,
                                  prev := if Some n = Some b then Some p else prev m\<rparr>) (heap s b))"
      by (rule ext) (auto simp add: assign_apply option.map_ident option.map_comp o_def
            cong: option.map_cong)
    then show ?thesis using assms Some n h1 by (simp add: removeNode_def cong: if_cong)
  qed
qed

lemma data_of_assign_links:
  "data_of (assign h a (nxt_update f)) = data_of h"
  "data_of (assign h a (prev_update g)) = data_of h"
  "data_of (assign h a (\<lambda>n. n\<lparr>nxt := x, prev := y\<rparr>)) = data_of h"
  by (rule ext, simp add: data_of_def assign_apply option.map_comp o_def)+

lemma removeNode_fields:
  "cache (removeNode s a) = cache s" "stats (removeNode s a) = stats s"
  "capacity (removeNode s a) = capacity s" "ttl (removeNode s a) = ttl s"
  "allocated (removeNode s a) = allocated s" "cleanupInterval (removeNode s a) = cleanupInterval s"
  "data_of (heap (removeNode s a)) = data_of (heap s)"
  by (simp_all add: removeNode_def Let_def data_of_assign_links split: option.splits)

lemma addToHead_fields:
  "cache (addToHead s a) = cache s" "stats (addToHead s a) = stats s"
  "capacity (addToHead s a) = capacity s" "ttl (addToHead s a) = ttl s"
  "allocated (addToHead s a) = allocated s" "cleanupInterval (addToHead s a) = cleanupInterval s"
  "data_of (heap (addToHead s a)) = data_of (heap s)"
  by (simp_all add: addToHead_def Let_def data_of_assign_links split: option.splits)

lemma removeNode_linked:
  assumes l: "linked (heap s) (head s) (tail s) as" and d: "distinct as" and a: "a \<in> set as"
  shows "linked (heap (removeNode s a)) (head (removeNode s a)) (tail (removeNode s a)) (remove1 a as)"
proof -
  from l a obtain node where node: "heap s a = Some node"
    "prev node = pred_in as a" "nxt node = succ_in as a"
    unfolding linked_def by blast
  have hd: "head s = first_opt as" and tl: "tail s = last_opt as"
    using l unfolding linked_def by simp_all
  have "prev node \<noteq> Some a" using d node(2) by (simp add: pred_in_neq)
  note eq = removeNode_eq[OF node(1) this]
  have h: "head (removeNode s a) = first_opt (remove1 a as)"
    using d a by (simp add: eq node hd first_opt_remove1 pred_in_None)
  have t: "tail (removeNode s a) = last_opt (remove1 a as)"
    using d a by (simp add: eq node tl last_opt_remove1 succ_in_None)
  have n: "\<exists>m. heap (removeNode s a) b = Some m \<and> prev m = pred_in (remove1 a as) b
               \<and> nxt m = succ_in (remove1 a as) b" if b: "b \<in> set (remove1 a as)" for b
  proof -
    have ba: "b \<noteq> a" and bs: "b \<in> set as" using b d by auto
    from l bs obtain nb where nb: "heap s b = Some nb"
      "prev nb = pred_in as b" "nxt nb = succ_in as b"
      unfolding linked_def by blast
    show ?thesis
      using d ba by (simp add: eq nb node pred_in_remove1 succ_in_remove1 pred_succ)
  qed
  show ?thesis unfolding linked_def using h t n by blast
qed

lemma addToHead_linked:
  assumes l: "linked (heap s) (head s) (tail s) as" and d: "distinct as" and a: "a \<notin> set as"
    and node: "heap s a = Some node"
  shows "linked (heap (addToHead s a)) (head (addToHead s a)) (tail (addToHead s a)) (a # as)"
proof -
  have hd: "head s = first_opt as" and tl: "tail s = last_opt as"
    using l unfolding linked_def by simp_all
  show ?thesis
  proof (cases as)
    case Nil
    then show ?thesis using hd tl node
      by (simp add: linked_def addToHead_def Let_def assign_apply)
  next
    case (Cons x xs)
    then have xa: "x \<noteq> a" using a by auto
    have heap': "heap (addToHead s a) =
        assign (assign (heap s) a (\<lambda>n. n\<lparr>nxt := Some x, prev := None\<rparr>)) x (\<lambda>n. n\<lparr>prev := Some a\<rparr>)"
      and head': "head (addToHead s a) = Some a" and tail': "tail (addToHead s a) = tail s"
      using hd tl Cons by (simp_all add: addToHead_def Let_def)
    have n: "\<exists>m. heap (addToHead s a) b = Some m \<and> prev m = pred_in (a # as) b
               \<and> nxt m = succ_in (a # as) b" if b: "b \<in> set (a # as)" for b
    proof (cases "b = a")
      case True
      then show ?thesis using node xa a Cons
        by (auto simp add: heap' assign_apply pred_in_Cons succ_in_Cons pred_in_notin
              dest: first_opt_mem)
    next
      case False
      with b have bs: "b \<in> set as" by simp
      from l bs obtain nb where nb: "heap s b = Some nb"
        "prev nb = pred_in as b" "nxt nb = succ_in as b"
        unfolding linked_def by blast
      show ?thesis using False nb Cons d
        by (auto simp add: heap' assign_apply pred_in_Cons succ_in_Cons pred_in_first)
    qed
    show ?thesis unfolding linked_def using n head' tail' tl Cons by (simp add: last_opt_def)
  qed
qed

lemma lru_inv_new: "lru_inv (LRUCache_new cap t) []"
  by (simp add: lru_inv_def LRUCache_new_def linked_def)

lemma delete_remove1:
  "distinct (map fst al) \<Longrightarrow> map_of al k = Some a \<Longrightarrow> AList.delete k al = remove1 (k, a) al"
proof (induction al)
  case Nil then show ?case by simp
next
  case (Cons p al)
  show ?case
  proof (cases "fst p = k")
    case True
    then have "k \<notin> fst ` set al" using Cons.prems(1) by auto
    then have "AList.delete k al = al"
      by (simp add: delete_id)
    then show ?thesis using True Cons.prems(2) by (cases p) (auto simp add: AList.delete_eq)
  next
    case False
    then show ?thesis using Cons by (cases p) (auto simp add: AList.delete_eq)
  qed
qed

lemma update_snoc:
  "map_of al k = None \<Longrightarrow> AList.update k a al = al @ [(k, a)]"
  by (induction al) (auto split: if_splits)

lemma lru_inv_lookup:
  assumes "lru_inv s as" "map_of (cache s) k = Some a"
  shows "a \<in> set as" "(k, a) \<in> set (cache s)" "\<exists>node. heap s a = Some node \<and> key node = k"
proof -
  show ka: "(k, a) \<in> set (cache s)" using assms(2) by (rule map_of_SomeD)
  then show "a \<in> set as" using assms(1) unfolding lru_inv_def by force
  show "\<exists>node. heap s a = Some node \<and> key node = k"
    using assms(1) ka unfolding lru_inv_def by blast
qed

lemma lru_inv_distinct_addr:
  assumes "lru_inv s as" shows "distinct (map snd (cache s))"
proof -
  have "card (set (map snd (cache s))) = length (map snd (cache s))"
    using assms unfolding lru_inv_def by (metis distinct_card length_map set_map)
  then show ?thesis by (rule card_distinct)
qed

lemma data_of_dom: "data_of h = data_of h' \<Longrightarrow> (h a \<noteq> None) = (h' a \<noteq> None)"
  by (metis data_of_def option.map_disc_iff)

lemma data_of_key:
  "data_of h = data_of h' \<Longrightarrow> (\<exists>node. h a = Some node \<and> key node = k) = (\<exists>node. h' a = Some node \<and> key node = k)"
proof -
  assume "data_of h = data_of h'"
  then have "data_of h a = data_of h' a" by simp
  then show ?thesis
    by (cases "h a"; cases "h' a") (auto simp add: data_of_def)
qed

lemma drop_entry_fields:
  "cache (drop_entry s k a) = AList.delete k (cache s)"
  "stats (drop_entry s k a) = (stats s)\<lparr>size_c := size_c (stats s) - 1\<rparr>"
  "capacity (drop_entry s k a) = capacity s" "ttl (drop_entry s k a) = ttl s"
  "allocated (drop_entry s k a) = allocated s"
  "cleanupInterval (drop_entry s k a) = cleanupInterval s"
  "data_of (heap (drop_entry s k a)) = data_of (heap s)"
  by (simp_all add: drop_entry_def Let_def removeNode_fields)

lemma drop_entry_inv:
  assumes inv: "lru_inv s as" and look: "map_of (cache s) k = Some a"
  shows "lru_inv (drop_entry s k a) (remove1 a as)"
proof -
  let ?s1 = "s\<lparr>cache := AList.delete k (cache s)\<rparr>"
  let ?s' = "drop_entry s k a"
  have l: "linked (heap s) (head s) (tail s) as" and d: "distinct as"
    and dk: "distinct (map fst (cache s))" and sa: "set as = snd ` set (cache s)"
    and len: "length as = length (cache s)"
    and keys: "\<forall>(k, a) \<in> set (cache s). \<exists>node. heap s a = Some node \<and> key node = k"
    and sz: "size_c (stats s) = int (length (cache s))"
    and al: "\<forall>a. heap s a \<noteq> None \<longrightarrow> a < allocated s"
    using inv unfolding lru_inv_def by blast+
  have mem: "a \<in> set as" and ka: "(k, a) \<in> set (cache s)"
    using lru_inv_lookup[OF inv look] by blast+
  have del: "AList.delete k (cache s) = remove1 (k, a) (cache s)"
    using dk look by (rule delete_remove1)
  have dc: "distinct (cache s)" using dk by (simp add: distinct_map)
  have da: "distinct (map snd (cache s))" using inv by (rule lru_inv_distinct_addr)
  have links: "heap ?s' = heap (removeNode ?s1 a)" "head ?s' = head (removeNode ?s1 a)"
    "tail ?s' = tail (removeNode ?s1 a)"
    by (simp_all add: drop_entry_def Let_def)
  have "linked (heap (removeNode ?s1 a)) (head (removeNode ?s1 a)) (tail (removeNode ?s1 a)) (remove1 a as)"
    using l d mem by (intro removeNode_linked) simp_all
  then have 1: "linked (heap ?s') (head ?s') (tail ?s') (remove1 a as)"
    by (simp only: links)
  have 2: "distinct (remove1 a as)" using d by simp
  have 3: "distinct (map fst (cache ?s'))"
    using dk by (simp add: drop_entry_fields distinct_delete)
  have inj: "inj_on snd (set (cache s))" using da by (simp add: distinct_map)
  have "snd ` set (remove1 (k, a) (cache s)) = snd ` set (cache s) - {a}"
  proof -
    have r: "set (remove1 (k, a) (cache s)) = set (cache s) - {(k, a)}"
      using dc by simp
    have "snd ` (set (cache s) - {(k, a)}) = snd ` set (cache s) - snd ` {(k, a)}"
      using inj ka by (intro inj_on_image_set_diff[where C = "set (cache s)"]) auto
    then show ?thesis by (simp add: r)
  qed
  then have 4: "set (remove1 a as) = snd ` set (cache ?s')"
    using d sa by (simp add: drop_entry_fields del)
  have 5: "length (remove1 a as) = length (cache ?s')"
    using mem ka len by (simp add: drop_entry_fields del length_remove1)
  have 6: "\<forall>(k, a) \<in> set (cache ?s'). \<exists>node. heap ?s' a = Some node \<and> key node = k"
  proof -
    have "\<And>k' a'. (k', a') \<in> set (cache ?s') \<Longrightarrow> \<exists>node. heap ?s' a' = Some node \<and> key node = k'"
    proof -
      fix k' a' assume "(k', a') \<in> set (cache ?s')"
      then have "(k', a') \<in> set (remove1 (k, a) (cache s))"
        by (simp add: drop_entry_fields del)
      then have "(k', a') \<in> set (cache s)"
        using set_remove1_subset[of "(k, a)" "cache s"] by (rule rev_subsetD)
      then have "\<exists>node. heap s a' = Some node \<and> key node = k'" using keys by blast
      then show "\<exists>node. heap ?s' a' = Some node \<and> key node = k'"
        using data_of_key[OF drop_entry_fields(7), of s k a a' k'] by simp
    qed
    then show ?thesis by blast
  qed
  have "length (cache s) > 0" using ka by (cases "cache s") auto
  then have "int (length (cache s) - 1) = int (length (cache s)) - 1" by linarith
  then have 7: "size_c (stats ?s') = int (length (cache ?s'))"
    using sz ka by (simp add: drop_entry_fields del length_remove1)
  have 8: "\<forall>b. heap ?s' b \<noteq> None \<longrightarrow> b < allocated ?s'"
    using al data_of_dom[OF drop_entry_fields(7), of s k a] by (simp add: drop_entry_fields)
  show ?thesis
    unfolding lru_inv_def using 1 2 3 4 5 6 7 8 by blast
qed

lemma moveToHead_fields:
  "cache (moveToHead s a) = cache s" "stats (moveToHead s a) = stats s"
  "capacity (moveToHead s a) = capacity s" "ttl (moveToHead s a) = ttl s"
  "allocated (moveToHead s a) = allocated s"
  "cleanupInterval (moveToHead s a) = cleanupInterval s"
  "data_of (heap (moveToHead s a)) = data_of (heap s)"
  by (simp_all add: moveToHead_def addToHead_fields removeNode_fields)

text \<open>The invariant for a state whose links and node data were changed, the map and the counters not.\<close>

lemma lru_inv_relink:
  assumes inv: "lru_inv s as"
    and l: "linked (heap s') (head s') (tail s') as'"
    and d: "distinct as'" and st: "set as' = set as" and len: "length as' = length as"
    and c: "cache s' = cache s" and sz: "size_c (stats s') = size_c (stats s)"
    and al: "allocated s' = allocated s"
    and keys: "\<And>a. map_option key (heap s' a) = map_option key (heap s a)"
  shows "lru_inv s' as'"
proof -
  have k: "(\<exists>node. heap s' a = Some node \<and> key node = k) = (\<exists>node. heap s a = Some node \<and> key node = k)"
    for a k
    using keys[of a] by (cases "heap s a"; cases "heap s' a") auto
  have dom: "(heap s' a \<noteq> None) = (heap s a \<noteq> None)" for a
    using keys[of a] by (cases "heap s a"; cases "heap s' a") auto
  show ?thesis
    using inv unfolding lru_inv_def
    by (simp only: l d st len c sz al k dom) simp
qed

lemma data_of_keys: "data_of h = data_of h' \<Longrightarrow> map_option key (h a) = map_option key (h' a)"
proof -
  assume "data_of h = data_of h'"
  then have "data_of h a = data_of h' a" by simp
  then show ?thesis by (cases "h a"; cases "h' a") (auto simp add: data_of_def)
qed

lemma moveToHead_inv:
  assumes inv: "lru_inv s as" and a: "a \<in> set as"
  shows "lru_inv (moveToHead s a) (a # remove1 a as)"
proof -
  have l: "linked (heap s) (head s) (tail s) as" and d: "distinct as"
    using inv unfolding lru_inv_def by blast+
  let ?r = "removeNode s a"
  have lr: "linked (heap ?r) (head ?r) (tail ?r) (remove1 a as)"
    using l d a by (rule removeNode_linked)
  from l a obtain node where "heap s a = Some node" unfolding linked_def by blast
  then obtain node' where n': "heap ?r a = Some node'"
    using data_of_dom[OF removeNode_fields(7), of s a a] by auto
  have "linked (heap (addToHead ?r a)) (head (addToHead ?r a)) (tail (addToHead ?r a)) (a # remove1 a as)"
    using lr _ _ n' by (rule addToHead_linked) (use d in simp_all)
  then have 1: "linked (heap (moveToHead s a)) (head (moveToHead s a)) (tail (moveToHead s a)) (a # remove1 a as)"
    by (simp add: moveToHead_def)
  show ?thesis
    using inv 1
  proof (rule lru_inv_relink)
    show "distinct (a # remove1 a as)" using d by simp
    show "set (a # remove1 a as) = set as" using a d by auto
    show "length (a # remove1 a as) = length as" using a by (simp add: length_remove1) (cases as, auto)
    show "map_option key (heap (moveToHead s a) b) = map_option key (heap s b)" for b
      using moveToHead_fields(7) by (rule data_of_keys)
  qed (simp_all add: moveToHead_fields)
qed

lemma keys_at_simps [simp]:
  "keys_at h [] = []"
  "keys_at h (a # as) = (case h a of None \<Rightarrow> [] | Some node \<Rightarrow> key node) # keys_at h as"
  by (simp_all add: keys_at_def)

lemma keys_at_cong:
  "(\<And>a. a \<in> set as \<Longrightarrow> map_option key (h a) = map_option key (h' a)) \<Longrightarrow> keys_at h as = keys_at h' as"
proof (induction as)
  case Nil show ?case by simp
next
  case (Cons a as)
  have "map_option key (h a) = map_option key (h' a)" using Cons.prems by simp
  then have "(case h a of None \<Rightarrow> [] | Some node \<Rightarrow> key node) = (case h' a of None \<Rightarrow> [] | Some node \<Rightarrow> key node)"
    by (cases "h a"; cases "h' a") auto
  then show ?case using Cons by simp
qed

lemma keys_from_linked:
  assumes "distinct as" "n \<ge> length as"
    and "\<forall>b \<in> set as. \<exists>node. h b = Some node \<and> nxt node = succ_in as b"
  shows "keys_from h (first_opt as) n = keys_at h as"
  using assms
proof (induction as arbitrary: n)
  case Nil then show ?case by simp
next
  case (Cons a as)
  from Cons.prems(2) obtain n' where n: "n = Suc n'" "n' \<ge> length as" by (cases n) auto
  from Cons.prems(3) obtain node where node: "h a = Some node" "nxt node = succ_in (a # as) a"
    by auto
  have nx: "nxt node = first_opt as" using node(2) by (simp add: succ_in_Cons)
  have "\<forall>b \<in> set as. \<exists>node. h b = Some node \<and> nxt node = succ_in as b"
  proof
    fix b assume b: "b \<in> set as"
    then have "b \<noteq> a" using Cons.prems(1) by auto
    moreover from Cons.prems(3) b obtain nb where "h b = Some nb" "nxt nb = succ_in (a # as) b"
      by auto
    ultimately show "\<exists>node. h b = Some node \<and> nxt node = succ_in as b"
      by (simp add: succ_in_Cons)
  qed
  then have "keys_from h (first_opt as) n' = keys_at h as"
    using Cons.IH[of n'] Cons.prems(1) n(2) by simp
  then show ?case using n node nx by simp
qed

lemma recency_eq:
  assumes "lru_inv s as" shows "recency s = keys_at (heap s) as"
proof -
  have l: "linked (heap s) (head s) (tail s) as" and d: "distinct as"
    and len: "length as = length (cache s)"
    using assms unfolding lru_inv_def by blast+
  have "keys_from (heap s) (first_opt as) (length (cache s)) = keys_at (heap s) as"
    using d l len unfolding linked_def by (intro keys_from_linked) auto
  then show ?thesis using l unfolding linked_def recency_def by simp
qed

lemma linked_cong:
  assumes "\<And>b. b \<in> set as \<Longrightarrow> h' b = h b" "linked h x y as"
  shows "linked h' x y as"
  using assms unfolding linked_def by auto

lemma lru_inv_addr:
  assumes "lru_inv s as" "a \<in> set as"
  shows "\<exists>node. heap s a = Some node \<and> map_of (cache s) (key node) = Some a"
proof -
  have dk: "distinct (map fst (cache s))" and sa: "set as = snd ` set (cache s)"
    and keys: "\<forall>(k, a) \<in> set (cache s). \<exists>node. heap s a = Some node \<and> key node = k"
    using assms(1) unfolding lru_inv_def by blast+
  from assms(2) sa obtain k where ka: "(k, a) \<in> set (cache s)" by force
  with keys obtain node where "heap s a = Some node" "key node = k" by blast
  moreover have "map_of (cache s) k = Some a" using dk ka by (rule map_of_is_SomeI)
  ultimately show ?thesis by simp
qed

lemma keys_at_set:
  assumes "lru_inv s as" shows "set (keys_at (heap s) as) = fst ` set (cache s)"
proof -
  have sa: "set as = snd ` set (cache s)"
    and keys: "\<forall>(k, a) \<in> set (cache s). \<exists>node. heap s a = Some node \<and> key node = k"
    using assms unfolding lru_inv_def by blast+
  show ?thesis
  proof (intro equalityI subsetI)
    fix k assume "k \<in> set (keys_at (heap s) as)"
    then obtain a where a: "a \<in> set as" "k = (case heap s a of None \<Rightarrow> [] | Some node \<Rightarrow> key node)"
      by (auto simp add: keys_at_def)
    from lru_inv_addr[OF assms a(1)] obtain node where
      "heap s a = Some node" "map_of (cache s) (key node) = Some a" by blast
    then have "(k, a) \<in> set (cache s)" using a(2) by (simp add: map_of_SomeD)
    then show "k \<in> fst ` set (cache s)" by force
  next
    fix k assume "k \<in> fst ` set (cache s)"
    then obtain a where ka: "(k, a) \<in> set (cache s)" by force
    then have "a \<in> set as" using sa by force
    moreover from keys ka obtain node where "heap s a = Some node" "key node = k" by blast
    ultimately show "k \<in> set (keys_at (heap s) as)"
      by (force simp add: keys_at_def)
  qed
qed

lemma remove1_last: "distinct as \<Longrightarrow> as \<noteq> [] \<Longrightarrow> remove1 (last as) as = butlast as"
  by (induction as) auto

lemma evictLRU_eq:
  assumes "tail s = Some t" "heap s t = Some node"
  shows "evictLRU s =
     (drop_entry s (key node) t)\<lparr>stats := (stats s)\<lparr>size_c := size_c (stats s) - 1,
                                                  evictions := evictions (stats s) + 1\<rparr>\<rparr>"
  using assms by (simp add: evictLRU_def drop_entry_def Let_def removeNode_fields)

lemma lru_inv_stats:
  "lru_inv s as \<Longrightarrow> size_c st = size_c (stats s) \<Longrightarrow> lru_inv (s\<lparr>stats := st\<rparr>) as"
  by (simp add: lru_inv_def)

lemma evictLRU_inv:
  assumes inv: "lru_inv s as" and ne: "as \<noteq> []"
  shows "lru_inv (evictLRU s) (butlast as)"
    and "cache (evictLRU s) = AList.delete (last (keys_at (heap s) as)) (cache s)"
    and "stats (evictLRU s) = (stats s)\<lparr>size_c := size_c (stats s) - 1, evictions := evictions (stats s) + 1\<rparr>"
    and "data_of (heap (evictLRU s)) = data_of (heap s)"
    and "capacity (evictLRU s) = capacity s" "ttl (evictLRU s) = ttl s"
    and "cleanupInterval (evictLRU s) = cleanupInterval s"
proof -
  have l: "linked (heap s) (head s) (tail s) as" and d: "distinct as"
    using inv unfolding lru_inv_def by blast+
  have t: "tail s = Some (last as)" using l ne unfolding linked_def by (simp add: last_opt_def)
  from lru_inv_addr[OF inv, of "last as"] ne obtain node where
    node: "heap s (last as) = Some node" "map_of (cache s) (key node) = Some (last as)" by auto
  note eq = evictLRU_eq[OF t node(1)]
  have "lru_inv (drop_entry s (key node) (last as)) (remove1 (last as) as)"
    using inv node(2) by (rule drop_entry_inv)
  then have "lru_inv (drop_entry s (key node) (last as)) (butlast as)"
    using d ne by (simp add: remove1_last)
  then show "lru_inv (evictLRU s) (butlast as)"
    unfolding eq by (rule lru_inv_stats) (simp add: drop_entry_fields)
  have "last (keys_at (heap s) as) = key node"
    using ne node(1) by (simp add: keys_at_def last_map)
  then show "cache (evictLRU s) = AList.delete (last (keys_at (heap s) as)) (cache s)"
    by (simp add: eq drop_entry_fields)
  show "stats (evictLRU s) = (stats s)\<lparr>size_c := size_c (stats s) - 1, evictions := evictions (stats s) + 1\<rparr>"
    by (simp add: eq)
  show "data_of (heap (evictLRU s)) = data_of (heap s)"
    by (simp add: eq drop_entry_fields)
  show "capacity (evictLRU s) = capacity s" "ttl (evictLRU s) = ttl s"
    "cleanupInterval (evictLRU s) = cleanupInterval s"
    by (simp_all add: eq drop_entry_fields)
qed

lemma set_c_new:
  "map_of (cache s) k = None \<Longrightarrow>
   set_c s k v now =
     (if size_c (stats (inserted s k v now)) > capacity (inserted s k v now)
      then evictLRU (inserted s k v now) else inserted s k v now)"
  by (simp add: set_c_def inserted_def Let_def)

lemma set_c_existing:
  "map_of (cache s) k = Some a \<Longrightarrow>
   set_c s k v now = moveToHead (s\<lparr>heap := assign (heap s) a (\<lambda>n. n\<lparr>val := v, timestamp := now\<rparr>)\<rparr>) a"
  by (simp add: set_c_def)

lemma inserted_fields:
  "stats (inserted s k v now) = (stats s)\<lparr>size_c := size_c (stats s) + 1\<rparr>"
  "capacity (inserted s k v now) = capacity s" "ttl (inserted s k v now) = ttl s"
  "cleanupInterval (inserted s k v now) = cleanupInterval s"
  "allocated (inserted s k v now) = allocated s + 1"
  "cache (inserted s k v now) = AList.update k (allocated s) (cache s)"
  "data_of (heap (inserted s k v now)) = (data_of (heap s))(allocated s \<mapsto> (k, v, now))"
  by (simp_all add: inserted_def Let_def addToHead_fields)
     (rule ext, simp add: data_of_def)

lemma lru_inv_fresh:
  assumes "lru_inv s as" shows "heap s (allocated s) = None" "allocated s \<notin> set as"
proof -
  have al: "\<forall>a. heap s a \<noteq> None \<longrightarrow> a < allocated s"
    and l: "linked (heap s) (head s) (tail s) as"
    using assms unfolding lru_inv_def by blast+
  show "heap s (allocated s) = None" using al by (cases "heap s (allocated s)") auto
  then show "allocated s \<notin> set as" using l unfolding linked_def by auto
qed

lemma inserted_inv:
  assumes inv: "lru_inv s as" and new: "map_of (cache s) k = None"
  shows "lru_inv (inserted s k v now) (allocated s # as)"
proof -
  let ?a = "allocated s"
  let ?node = "\<lparr>key = k, val = v, timestamp = now, prev = None, nxt = None\<rparr>"
  let ?s2 = "s\<lparr>heap := (heap s)(?a \<mapsto> ?node), allocated := ?a + 1, cache := AList.update k ?a (cache s)\<rparr>"
  let ?s' = "inserted s k v now"
  have l: "linked (heap s) (head s) (tail s) as" and d: "distinct as"
    and dk: "distinct (map fst (cache s))" and sa: "set as = snd ` set (cache s)"
    and len: "length as = length (cache s)"
    and keys: "\<forall>(k, a) \<in> set (cache s). \<exists>node. heap s a = Some node \<and> key node = k"
    and sz: "size_c (stats s) = int (length (cache s))"
    and al: "\<forall>a. heap s a \<noteq> None \<longrightarrow> a < allocated s"
    using inv unfolding lru_inv_def by blast+
  have fresh: "heap s ?a = None" "?a \<notin> set as" using lru_inv_fresh[OF inv] by blast+
  have c: "cache ?s' = cache s @ [(k, ?a)]"
    using new by (simp add: inserted_fields update_snoc)
  have kn: "k \<notin> fst ` set (cache s)" using new by (simp add: map_of_eq_None_iff)
  have "linked (heap ?s2) (head ?s2) (tail ?s2) as"
  proof (rule linked_cong[where h = "heap s"])
    show "heap ?s2 b = heap s b" if "b \<in> set as" for b using that fresh(2) by auto
    show "linked (heap s) (head ?s2) (tail ?s2) as" using l by simp
  qed
  then have "linked (heap (addToHead ?s2 ?a)) (head (addToHead ?s2 ?a)) (tail (addToHead ?s2 ?a)) (?a # as)"
    using d fresh(2) by (rule addToHead_linked) simp
  then have 1: "linked (heap ?s') (head ?s') (tail ?s') (?a # as)"
    by (simp add: inserted_def Let_def)
  have 2: "distinct (?a # as)" using d fresh(2) by simp
  have 3: "distinct (map fst (cache ?s'))" using dk kn by (simp add: c)
  have 4: "set (?a # as) = snd ` set (cache ?s')" using sa by (simp add: c)
  have 5: "length (?a # as) = length (cache ?s')" using len by (simp add: c)
  have dat: "data_of (heap ?s') = (data_of (heap s))(?a \<mapsto> (k, v, now))"
    by (rule inserted_fields)
  have 6: "\<forall>(k', a') \<in> set (cache ?s'). \<exists>node. heap ?s' a' = Some node \<and> key node = k'"
  proof -
    have "\<exists>node. heap ?s' a' = Some node \<and> key node = k'" if m: "(k', a') \<in> set (cache ?s')" for k' a'
    proof (cases "a' = ?a")
      case True
      have "(k', ?a) \<notin> set (cache s)"
      proof
        assume "(k', ?a) \<in> set (cache s)"
        then have "?a \<in> snd ` set (cache s)" by (rule rev_image_eqI) simp
        then show False using sa fresh(2) by simp
      qed
      then have "k' = k" using m True by (simp add: c)
      moreover have "data_of (heap ?s') ?a = Some (k, v, now)" by (simp add: dat)
      ultimately show ?thesis using True by (auto simp add: data_of_def)
    next
      case False
      then have "(k', a') \<in> set (cache s)" using m by (simp add: c)
      then obtain node where "heap s a' = Some node" "key node = k'" using keys by blast
      moreover have "data_of (heap ?s') a' = data_of (heap s) a'" using False by (simp add: dat)
      ultimately show ?thesis by (auto simp add: data_of_def)
    qed
    then show ?thesis by blast
  qed
  have 7: "size_c (stats ?s') = int (length (cache ?s'))"
    using sz by (simp add: inserted_fields(1) c)
  have 8: "\<forall>b. heap ?s' b \<noteq> None \<longrightarrow> b < allocated ?s'"
  proof (intro allI impI)
    fix b assume "heap ?s' b \<noteq> None"
    then have "data_of (heap ?s') b \<noteq> None" by (simp add: data_of_def)
    then have "b = ?a \<or> heap s b \<noteq> None"
      by (auto simp add: dat data_of_def split: if_splits)
    then show "b < allocated ?s'" using al by (auto simp add: inserted_fields(5) less_Suc_eq)
  qed
  show ?thesis
    unfolding lru_inv_def using 1 2 3 4 5 6 7 8 by blast
qed

lemma inserted_keys_at:
  assumes inv: "lru_inv s as"
  shows "keys_at (heap (inserted s k v now)) (allocated s # as) = k # keys_at (heap s) as"
proof -
  have dat: "data_of (heap (inserted s k v now)) = (data_of (heap s))(allocated s \<mapsto> (k, v, now))"
    by (rule inserted_fields)
  have "data_of (heap (inserted s k v now)) (allocated s) = Some (k, v, now)" by (simp add: dat)
  then have h: "(case heap (inserted s k v now) (allocated s) of None \<Rightarrow> [] | Some node \<Rightarrow> key node) = k"
    by (auto simp add: data_of_def)
  have "keys_at (heap (inserted s k v now)) as = keys_at (heap s) as"
  proof (rule keys_at_cong)
    fix a assume "a \<in> set as"
    then have "a \<noteq> allocated s" using lru_inv_fresh(2)[OF inv] by auto
    then have "data_of (heap (inserted s k v now)) a = data_of (heap s) a" by (simp add: dat)
    then show "map_option key (heap (inserted s k v now) a) = map_option key (heap s a)"
      by (cases "heap (inserted s k v now) a"; cases "heap s a") (auto simp add: data_of_def)
  qed
  then show ?thesis using h by simp
qed

lemma touch_inv:
  assumes inv: "lru_inv s as"
  shows "lru_inv (s\<lparr>heap := assign (heap s) a (\<lambda>n. n\<lparr>val := v, timestamp := now\<rparr>)\<rparr>) as"
proof -
  let ?s' = "s\<lparr>heap := assign (heap s) a (\<lambda>n. n\<lparr>val := v, timestamp := now\<rparr>)\<rparr>"
  have l: "linked (heap s) (head s) (tail s) as" and d: "distinct as"
    using inv unfolding lru_inv_def by blast+
  have "\<exists>node. heap ?s' b = Some node \<and> prev node = pred_in as b \<and> nxt node = succ_in as b"
    if "b \<in> set as" for b
  proof -
    from l that obtain nb where "heap s b = Some nb" "prev nb = pred_in as b" "nxt nb = succ_in as b"
      unfolding linked_def by blast
    then show ?thesis by (cases "b = a") (simp_all add: assign_apply)
  qed
  then have 1: "linked (heap ?s') (head ?s') (tail ?s') as"
    using l unfolding linked_def by simp
  show ?thesis
    using inv 1 d
  proof (rule lru_inv_relink)
    show "map_option key (heap ?s' b) = map_option key (heap s b)" for b
      by (simp add: assign_apply option.map_comp o_def)
  qed simp_all
qed

lemma set_c_existing_inv:
  assumes inv: "lru_inv s as" and look: "map_of (cache s) k = Some a"
  shows "lru_inv (set_c s k v now) (a # remove1 a as)"
    and "cache (set_c s k v now) = cache s" and "stats (set_c s k v now) = stats s"
    and "capacity (set_c s k v now) = capacity s" and "ttl (set_c s k v now) = ttl s"
    and "cleanupInterval (set_c s k v now) = cleanupInterval s"
proof -
  have a: "a \<in> set as" using lru_inv_lookup(1)[OF inv look] .
  show "lru_inv (set_c s k v now) (a # remove1 a as)"
    unfolding set_c_existing[OF look] using touch_inv[OF inv] a by (rule moveToHead_inv)
qed (simp_all add: set_c_existing[OF look] moveToHead_fields)

lemma set_c_new_room:
  assumes inv: "lru_inv s as" and new: "map_of (cache s) k = None"
    and room: "size_c (stats s) + 1 \<le> capacity s"
  shows "set_c s k v now = inserted s k v now"
    and "lru_inv (set_c s k v now) (allocated s # as)"
    and "recency (set_c s k v now) = k # recency s"
    and "map fst (cache (set_c s k v now)) = map fst (cache s) @ [k]"
proof -
  show eq: "set_c s k v now = inserted s k v now"
    using room by (simp add: set_c_new[OF new] inserted_fields)
  have i: "lru_inv (inserted s k v now) (allocated s # as)" using inv new by (rule inserted_inv)
  then show "lru_inv (set_c s k v now) (allocated s # as)" by (simp add: eq)
  show "recency (set_c s k v now) = k # recency s"
    by (simp only: eq recency_eq[OF i] recency_eq[OF inv] inserted_keys_at[OF inv])
  show "map fst (cache (set_c s k v now)) = map fst (cache s) @ [k]"
    using new by (simp add: eq inserted_fields update_snoc)
qed

lemma keys_at_butlast: "keys_at h (butlast as) = butlast (keys_at h as)"
  by (simp add: keys_at_def map_butlast)

lemma set_c_new_full:
  assumes inv: "lru_inv s as" and new: "map_of (cache s) k = None"
    and full: "size_c (stats s) + 1 > capacity s"
  shows "set_c s k v now = evictLRU (inserted s k v now)"
    and "lru_inv (set_c s k v now) (butlast (allocated s # as))"
    and "recency (set_c s k v now) = butlast (k # recency s)"
    and "cache (set_c s k v now) = AList.delete (last (k # recency s)) (cache s @ [(k, allocated s)])"
    and "stats (set_c s k v now) = (stats s)\<lparr>evictions := evictions (stats s) + 1\<rparr>"
proof -
  let ?i = "inserted s k v now"
  show eq: "set_c s k v now = evictLRU ?i"
    using full by (simp add: set_c_new[OF new] inserted_fields)
  have i: "lru_inv ?i (allocated s # as)" using inv new by (rule inserted_inv)
  note ev = evictLRU_inv[OF i, simplified]
  have e: "lru_inv (evictLRU ?i) (butlast (allocated s # as))"
    using evictLRU_inv(1)[OF i] by simp
  then show "lru_inv (set_c s k v now) (butlast (allocated s # as))" by (simp only: eq)
  have kk: "keys_at (heap ?i) (allocated s # as) = k # recency s"
    by (simp only: inserted_keys_at[OF inv] recency_eq[OF inv])
  have d: "data_of (heap (evictLRU ?i)) = data_of (heap ?i)"
    using evictLRU_inv(4)[OF i] by simp
  have "keys_at (heap (evictLRU ?i)) (butlast (allocated s # as))
          = keys_at (heap ?i) (butlast (allocated s # as))"
    by (rule keys_at_cong) (rule data_of_keys[OF d])
  then show "recency (set_c s k v now) = butlast (k # recency s)"
    by (simp only: eq recency_eq[OF e] keys_at_butlast kk)
  have "cache (evictLRU ?i) = AList.delete (last (keys_at (heap ?i) (allocated s # as))) (cache ?i)"
    using evictLRU_inv(2)[OF i] by simp
  then show "cache (set_c s k v now) = AList.delete (last (k # recency s)) (cache s @ [(k, allocated s)])"
    using new by (simp only: eq kk inserted_fields update_snoc)
  have "stats (evictLRU ?i) = (stats ?i)\<lparr>size_c := size_c (stats ?i) - 1, evictions := evictions (stats ?i) + 1\<rparr>"
    using evictLRU_inv(3)[OF i] by simp
  then show "stats (set_c s k v now) = (stats s)\<lparr>evictions := evictions (stats s) + 1\<rparr>"
    by (simp add: eq inserted_fields)
qed

lemma get_miss:
  "map_of (cache s) k = None \<Longrightarrow>
   get s k now = (s\<lparr>stats := (stats s)\<lparr>misses := misses (stats s) + 1\<rparr>\<rparr>, None)"
  by (simp add: get_def)

lemma get_expired:
  "map_of (cache s) k = Some a \<Longrightarrow> heap s a = Some node \<Longrightarrow> now - timestamp node > ttl s \<Longrightarrow>
   get s k now =
     ((drop_entry s k a)\<lparr>stats := (stats s)\<lparr>size_c := size_c (stats s) - 1,
                                               misses := misses (stats s) + 1\<rparr>\<rparr>, None)"
  by (simp add: get_def isExpired_def Let_def drop_entry_fields)

lemma get_hit:
  "map_of (cache s) k = Some a \<Longrightarrow> heap s a = Some node \<Longrightarrow> \<not> now - timestamp node > ttl s \<Longrightarrow>
   get s k now =
     (moveToHead (s\<lparr>stats := (stats s)\<lparr>hits := hits (stats s) + 1\<rparr>\<rparr>) a, Some (val node))"
  by (simp add: get_def isExpired_def Let_def)

lemma has_expired:
  "map_of (cache s) k = Some a \<Longrightarrow> heap s a = Some node \<Longrightarrow> now - timestamp node > ttl s \<Longrightarrow>
   has s k now = (drop_entry s k a, False)"
  by (simp add: has_def isExpired_def)

lemma has_other:
  "map_of (cache s) k = None \<or>
   (\<exists>a node. map_of (cache s) k = Some a \<and> heap s a = Some node \<and> \<not> now - timestamp node > ttl s)
   \<Longrightarrow> fst (has s k now) = s"
  by (auto simp add: has_def isExpired_def)

lemma lru_ok_new: "lru_ok (LRUCache_new cap t)"
  unfolding lru_ok_def using lru_inv_new[of cap t] by (auto simp add: LRUCache_new_def)

lemma lru_inv_size_nonneg: "lru_inv s as \<Longrightarrow> 0 \<le> size_c (stats s)"
  by (simp add: lru_inv_def)

lemma get_ok:
  assumes "lru_ok s" shows "lru_ok (fst (get s k now))" "capacity (fst (get s k now)) = capacity s"
proof -
  from assms obtain as where inv: "lru_inv s as" and b: "size_c (stats s) \<le> max 0 (capacity s)"
    unfolding lru_ok_def by blast
  show "lru_ok (fst (get s k now))"
  proof (cases "map_of (cache s) k")
    case None
    have "lru_inv (s\<lparr>stats := (stats s)\<lparr>misses := misses (stats s) + 1\<rparr>\<rparr>) as"
      using inv by (rule lru_inv_stats) simp
    then show ?thesis using b unfolding lru_ok_def by (auto simp add: get_miss[OF None])
  next
    case (Some a)
    from lru_inv_lookup(3)[OF inv Some] obtain node where node: "heap s a = Some node" by blast
    show ?thesis
    proof (cases "now - timestamp node > ttl s")
      case True
      have "lru_inv (drop_entry s k a) (remove1 a as)" using inv Some by (rule drop_entry_inv)
      then have "lru_inv ((drop_entry s k a)\<lparr>stats := (stats s)\<lparr>size_c := size_c (stats s) - 1,
                                               misses := misses (stats s) + 1\<rparr>\<rparr>) (remove1 a as)"
        by (rule lru_inv_stats) (simp add: drop_entry_fields)
      then show ?thesis using b unfolding lru_ok_def
        by (auto simp add: get_expired[OF Some node True] drop_entry_fields)
    next
      case False
      have "lru_inv (s\<lparr>stats := (stats s)\<lparr>hits := hits (stats s) + 1\<rparr>\<rparr>) as"
        using inv by (rule lru_inv_stats) simp
      then have "lru_inv (moveToHead (s\<lparr>stats := (stats s)\<lparr>hits := hits (stats s) + 1\<rparr>\<rparr>) a)
                   (a # remove1 a as)"
        using lru_inv_lookup(1)[OF inv Some] by (rule moveToHead_inv)
      then show ?thesis using b unfolding lru_ok_def
        by (auto simp add: get_hit[OF Some node False] moveToHead_fields)
    qed
  qed
  show "capacity (fst (get s k now)) = capacity s"
    by (simp add: get_def Let_def drop_entry_fields moveToHead_fields split: option.splits)
qed

lemma has_ok:
  assumes "lru_ok s" shows "lru_ok (fst (has s k now))" "capacity (fst (has s k now)) = capacity s"
proof -
  from assms obtain as where inv: "lru_inv s as" and b: "size_c (stats s) \<le> max 0 (capacity s)"
    unfolding lru_ok_def by blast
  show "lru_ok (fst (has s k now))"
  proof (cases "\<exists>a node. map_of (cache s) k = Some a \<and> heap s a = Some node \<and> now - timestamp node > ttl s")
    case True
    then obtain a node where look: "map_of (cache s) k = Some a" and node: "heap s a = Some node"
      and ex: "now - timestamp node > ttl s" by blast
    have "lru_inv (drop_entry s k a) (remove1 a as)" using inv look by (rule drop_entry_inv)
    then show ?thesis using b unfolding lru_ok_def
      by (auto simp add: has_expired[OF look node ex] drop_entry_fields)
  next
    case False
    have "fst (has s k now) = s"
    proof (cases "map_of (cache s) k")
      case None then show ?thesis by (simp add: has_other)
    next
      case (Some a)
      from lru_inv_lookup(3)[OF inv Some] obtain node where node: "heap s a = Some node" by blast
      with False Some have "\<not> now - timestamp node > ttl s" by blast
      with Some node show ?thesis by (intro has_other) blast
    qed
    then show ?thesis using assms by simp
  qed
  show "capacity (fst (has s k now)) = capacity s"
    by (simp add: has_def drop_entry_fields split: option.splits)
qed

lemma set_c_ok:
  assumes "lru_ok s" shows "lru_ok (set_c s k v now)" "capacity (set_c s k v now) = capacity s"
proof -
  from assms obtain as where inv: "lru_inv s as" and b: "size_c (stats s) \<le> max 0 (capacity s)"
    unfolding lru_ok_def by blast
  have "lru_ok (set_c s k v now) \<and> capacity (set_c s k v now) = capacity s"
  proof (cases "map_of (cache s) k")
    case (Some a)
    show ?thesis
      using set_c_existing_inv[OF inv Some, of v now] b unfolding lru_ok_def by auto
  next
    case None
    show ?thesis
    proof (cases "size_c (stats s) + 1 \<le> capacity s")
      case True
      note r = set_c_new_room[OF inv None True, of v now]
      have "size_c (stats (set_c s k v now)) \<le> max 0 (capacity (set_c s k v now))"
        using True by (simp add: r(1) inserted_fields)
      then show ?thesis using r(2) unfolding lru_ok_def by (auto simp add: r(1) inserted_fields)
    next
      case False
      then have full: "size_c (stats s) + 1 > capacity s" by simp
      note r = set_c_new_full[OF inv None full, of v now]
      have c: "capacity (set_c s k v now) = capacity s"
        using evictLRU_inv(5)[OF inserted_inv[OF inv None, of v now]]
        by (simp add: r(1) inserted_fields)
      have "size_c (stats (set_c s k v now)) \<le> max 0 (capacity (set_c s k v now))"
        using b by (simp add: r(5) c)
      then show ?thesis using r(2) c unfolding lru_ok_def by auto
    qed
  qed
  then show "lru_ok (set_c s k v now)" "capacity (set_c s k v now) = capacity s" by simp_all
qed

lemma clear_inv:
  assumes "lru_inv s as" shows "lru_inv (clear s) []"
  using assms unfolding lru_inv_def by (simp add: clear_def linked_def)

lemma clear_ok:
  assumes "lru_ok s" shows "lru_ok (clear s)" "capacity (clear s) = capacity s"
proof -
  from assms obtain as where "lru_inv s as" unfolding lru_ok_def by blast
  then have "lru_inv (clear s) []" by (rule clear_inv)
  then show "lru_ok (clear s)" unfolding lru_ok_def by (auto simp add: clear_def)
  show "capacity (clear s) = capacity s" by (simp add: clear_def)
qed

lemma destroy_ok:
  assumes "lru_ok s" shows "lru_ok (destroy s)" "capacity (destroy s) = capacity s"
proof -
  have "lru_ok (s\<lparr>cleanupInterval := False\<rparr>)"
    using assms unfolding lru_ok_def lru_inv_def by simp
  then show "lru_ok (destroy s)" unfolding destroy_def by (rule clear_ok)
  show "capacity (destroy s) = capacity s" by (simp add: destroy_def clear_def)
qed

lemma map_fst_delete: "map fst (AList.delete k al) = filter (\<lambda>x. x \<noteq> k) (map fst al)"
  by (induction al) auto

lemma cleanup_key_present:
  "map_of (cache s) k = Some a \<Longrightarrow> cleanup_key s k = drop_entry s k a"
  by (simp add: cleanup_key_def)

lemma cleanup_fold:
  assumes "lru_inv s as" "distinct ks" "set ks \<subseteq> fst ` set (cache s)"
  shows "(\<exists>as'. lru_inv (foldl cleanup_key s ks) as')
       \<and> stats (foldl cleanup_key s ks) = (stats s)\<lparr>size_c := size_c (stats s) - int (length ks)\<rparr>
       \<and> map fst (cache (foldl cleanup_key s ks)) = filter (\<lambda>k. k \<notin> set ks) (map fst (cache s))
       \<and> capacity (foldl cleanup_key s ks) = capacity s
       \<and> ttl (foldl cleanup_key s ks) = ttl s
       \<and> cleanupInterval (foldl cleanup_key s ks) = cleanupInterval s"
  using assms
proof (induction ks arbitrary: s as)
  case Nil
  then show ?case by auto
next
  case (Cons k ks)
  from Cons.prems(3) have "k \<in> fst ` set (cache s)" by simp
  then obtain a where look: "map_of (cache s) k = Some a"
    by (metis domD dom_map_of_conv_image_fst)
  let ?s1 = "drop_entry s k a"
  have inv1: "lru_inv ?s1 (remove1 a as)" using Cons.prems(1) look by (rule drop_entry_inv)
  have keys1: "map fst (cache ?s1) = filter (\<lambda>x. x \<noteq> k) (map fst (cache s))"
    by (simp add: drop_entry_fields map_fst_delete)
  have "set ks \<subseteq> fst ` set (cache ?s1)"
  proof
    fix x assume x: "x \<in> set ks"
    then have "x \<noteq> k" using Cons.prems(2) by auto
    moreover have "x \<in> set (map fst (cache s))" using x Cons.prems(3) by auto
    ultimately have "x \<in> set (map fst (cache ?s1))" by (simp add: keys1)
    then show "x \<in> fst ` set (cache ?s1)" by simp
  qed
  with inv1 Cons.prems(2)
  have IH: "(\<exists>as'. lru_inv (foldl cleanup_key ?s1 ks) as')
       \<and> stats (foldl cleanup_key ?s1 ks) = (stats ?s1)\<lparr>size_c := size_c (stats ?s1) - int (length ks)\<rparr>
       \<and> map fst (cache (foldl cleanup_key ?s1 ks)) = filter (\<lambda>k. k \<notin> set ks) (map fst (cache ?s1))
       \<and> capacity (foldl cleanup_key ?s1 ks) = capacity ?s1
       \<and> ttl (foldl cleanup_key ?s1 ks) = ttl ?s1
       \<and> cleanupInterval (foldl cleanup_key ?s1 ks) = cleanupInterval ?s1"
    by (intro Cons.IH) simp_all
  have f: "foldl cleanup_key s (k # ks) = foldl cleanup_key ?s1 ks"
    by (simp add: cleanup_key_present[OF look])
  have flt: "filter (\<lambda>x. x \<notin> set ks) (filter (\<lambda>x. x \<noteq> k) (map fst (cache s)))
          = filter (\<lambda>x. x \<notin> set (k # ks)) (map fst (cache s))"
    by (induction "cache s") auto
  have st: "(stats ?s1)\<lparr>size_c := size_c (stats ?s1) - int (length ks)\<rparr>
          = (stats s)\<lparr>size_c := size_c (stats s) - int (length (k # ks))\<rparr>"
    by (simp add: drop_entry_fields)
  have ks: "filter (\<lambda>k. k \<notin> set ks) (map fst (cache ?s1))
          = filter (\<lambda>x. x \<notin> set (k # ks)) (map fst (cache s))"
    by (simp only: keys1 flt)
  from IH obtain as' where i1: "lru_inv (foldl cleanup_key ?s1 ks) as'" by blast
  have i2: "stats (foldl cleanup_key ?s1 ks) = (stats s)\<lparr>size_c := size_c (stats s) - int (length (k # ks))\<rparr>"
    using IH by (simp only: st)
  have i3: "map fst (cache (foldl cleanup_key ?s1 ks)) = filter (\<lambda>x. x \<notin> set (k # ks)) (map fst (cache s))"
    using IH by (simp only: ks)
  have i4: "capacity (foldl cleanup_key ?s1 ks) = capacity s" "ttl (foldl cleanup_key ?s1 ks) = ttl s"
    "cleanupInterval (foldl cleanup_key ?s1 ks) = cleanupInterval s"
    using IH by (simp_all add: drop_entry_fields)
  show ?case
    unfolding f using i1 i2 i3 i4 by blast
qed

lemma keysToDelete_props:
  assumes "lru_inv s as"
  shows "distinct (keysToDelete s now)" "set (keysToDelete s now) \<subseteq> fst ` set (cache s)"
proof -
  have "distinct (map fst (cache s))" using assms unfolding lru_inv_def by blast
  then show "distinct (keysToDelete s now)"
    unfolding keysToDelete_def by (rule distinct_map_filter)
  show "set (keysToDelete s now) \<subseteq> fst ` set (cache s)"
    unfolding keysToDelete_def by auto
qed

lemma cleanup_ok:
  assumes "lru_ok s"
  shows "lru_ok (cleanupStaleEntries s now)" "capacity (cleanupStaleEntries s now) = capacity s"
proof -
  from assms obtain as where inv: "lru_inv s as" and b: "size_c (stats s) \<le> max 0 (capacity s)"
    unfolding lru_ok_def by blast
  note f = cleanup_fold[OF inv keysToDelete_props[OF inv, of now]]
  show "capacity (cleanupStaleEntries s now) = capacity s"
    using f by (simp add: cleanupStaleEntries_def)
  moreover have "size_c (stats (cleanupStaleEntries s now)) \<le> size_c (stats s)"
    using f by (simp add: cleanupStaleEntries_def)
  ultimately show "lru_ok (cleanupStaleEntries s now)"
    using f b unfolding lru_ok_def cleanupStaleEntries_def by auto
qed

lemma apply_op_ok:
  assumes "lru_ok s" shows "lru_ok (apply_op s x) \<and> capacity (apply_op s x) = capacity s"
proof (cases x)
  case (Pair opn now)
  show ?thesis
    using assms unfolding Pair
    by (cases opn) (simp_all add: get_ok set_c_ok has_ok clear_ok destroy_ok cleanup_ok)
qed

lemma apply_ops_ok:
  "lru_ok s \<Longrightarrow> lru_ok (apply_ops s ops) \<and> capacity (apply_ops s ops) = capacity s"
  unfolding apply_ops_def
proof (induction ops arbitrary: s)
  case Nil then show ?case by simp
next
  case (Cons x ops)
  have "lru_ok (apply_op s x) \<and> capacity (apply_op s x) = capacity s"
    using Cons.prems by (rule apply_op_ok)
  then show ?case using Cons.IH[of "apply_op s x"] by simp
qed

lemma reachable_ok:
  "lru_ok (apply_ops (LRUCache_new cap t) ops)"
  "capacity (apply_ops (LRUCache_new cap t) ops) = cap"
  using apply_ops_ok[OF lru_ok_new, of cap t ops] by (simp_all add: LRUCache_new_def)

lemma apply_ops_Nil: "apply_ops s [] = s"
  by (simp add: apply_ops_def)

lemma apply_ops_Cons: "apply_ops s (x # ops) = apply_ops (apply_op s x) ops"
  by (simp add: apply_ops_def)

lemma apply_ops_append: "apply_ops s (ops @ ops') = apply_ops (apply_ops s ops) ops'"
  by (simp add: apply_ops_def)

lemma sets_room:
  assumes "lru_inv s as" "distinct (map fst (cache s) @ map fst kvs)"
    and "size_c (stats s) + int (length kvs) \<le> capacity s"
  shows "(\<exists>as'. lru_inv (apply_ops s (sets kvs)) as')
       \<and> map fst (cache (apply_ops s (sets kvs))) = map fst (cache s) @ map fst kvs
       \<and> recency (apply_ops s (sets kvs)) = rev (map fst kvs) @ recency s
       \<and> evictions (stats (apply_ops s (sets kvs))) = evictions (stats s)
       \<and> size_c (stats (apply_ops s (sets kvs))) = size_c (stats s) + int (length kvs)
       \<and> capacity (apply_ops s (sets kvs)) = capacity s"
  using assms
proof (induction kvs arbitrary: s as)
  case Nil
  then show ?case by (auto simp add: sets_def apply_ops_Nil)
next
  case (Cons x kvs)
  obtain k v now where x: "x = (k, v, now)" by (cases x) auto
  let ?s1 = "set_c s k v now"
  have "k \<notin> fst ` set (cache s)" using Cons.prems(2) x by auto
  then have new: "map_of (cache s) k = None" by (simp add: map_of_eq_None_iff)
  have room: "size_c (stats s) + 1 \<le> capacity s" using Cons.prems(3) by simp
  note r = set_c_new_room[OF Cons.prems(1) new room, of v now]
  have st: "stats ?s1 = (stats s)\<lparr>size_c := size_c (stats s) + 1\<rparr>" "capacity ?s1 = capacity s"
    by (simp_all add: r(1) inserted_fields)
  have d1: "distinct (map fst (cache ?s1) @ map fst kvs)"
    using Cons.prems(2) x by (simp add: r(4))
  have room1: "size_c (stats ?s1) + int (length kvs) \<le> capacity ?s1"
    using Cons.prems(3) by (simp add: st)
  note IH = Cons.IH[OF r(2) d1 room1]
  have f: "apply_ops s (sets (x # kvs)) = apply_ops ?s1 (sets kvs)"
    by (simp add: sets_def apply_ops_Cons x)
  show ?case
    unfolding f using IH by (simp add: r(3) r(4) st x)
qed

lemma filter_hd_distinct: "distinct ks \<Longrightarrow> ks \<noteq> [] \<Longrightarrow> filter (\<lambda>x. x \<noteq> hd ks) ks = tl ks"
  by (cases ks) (auto simp add: filter_id_conv)

lemma sets_overflow:
  assumes d: "distinct (map fst kvs)" and len: "length kvs = n + 1"
  shows "evictions (stats (apply_ops (LRUCache_new (int n) t) (sets kvs))) = 1
       \<and> map fst (cache (apply_ops (LRUCache_new (int n) t) (sets kvs))) = tl (map fst kvs)
       \<and> recency (apply_ops (LRUCache_new (int n) t) (sets kvs)) = rev (tl (map fst kvs))
       \<and> size_c (stats (apply_ops (LRUCache_new (int n) t) (sets kvs))) = int n"
proof -
  from len obtain init x where kvs: "kvs = init @ [x]" and li: "length init = n"
    by (cases kvs rule: rev_cases) auto
  obtain k v now where x: "x = (k, v, now)" by (cases x) auto
  let ?s0 = "LRUCache_new (int n) t :: 'a LRUCache"
  let ?s1 = "apply_ops ?s0 (sets init)"
  have "(\<exists>as'. lru_inv ?s1 as')
       \<and> map fst (cache ?s1) = map fst (cache ?s0) @ map fst init
       \<and> recency ?s1 = rev (map fst init) @ recency ?s0
       \<and> evictions (stats ?s1) = evictions (stats ?s0)
       \<and> size_c (stats ?s1) = size_c (stats ?s0) + int (length init)
       \<and> capacity ?s1 = capacity ?s0"
    using d by (intro sets_room[OF lru_inv_new]) (simp_all add: kvs li LRUCache_new_def)
  then obtain as1 where inv1: "lru_inv ?s1 as1"
    and c1: "map fst (cache ?s1) = map fst init"
    and r1: "recency ?s1 = rev (map fst init)"
    and e1: "evictions (stats ?s1) = 0"
    and z1: "size_c (stats ?s1) = int n"
    and cap1: "capacity ?s1 = int n"
    by (auto simp add: LRUCache_new_def recency_def li)
  have "k \<notin> set (map fst init)" using d by (simp add: kvs x)
  then have new: "map_of (cache ?s1) k = None"
    by (simp add: map_of_eq_None_iff flip: c1)
  have full: "size_c (stats ?s1) + 1 > capacity ?s1" by (simp add: z1 cap1)
  note r = set_c_new_full[OF inv1 new full, of v now]
  have f: "apply_ops ?s0 (sets kvs) = set_c ?s1 k v now"
    by (simp add: kvs x sets_def apply_ops_append apply_ops_Cons apply_ops_Nil)
  let ?ks = "map fst kvs"
  have ks: "?ks = map fst init @ [k]" by (simp add: kvs x)
  have "last (k # rev (map fst init)) = hd (map fst init @ [k])"
    by (cases init) (simp_all add: last_rev)
  then have lst: "last (k # recency ?s1) = hd ?ks"
    by (simp only: r1 ks)
  have "map fst (cache ?s1 @ [(k, allocated ?s1)]) = ?ks"
    by (simp add: c1 ks)
  then have "map fst (cache (set_c ?s1 k v now)) = filter (\<lambda>x. x \<noteq> hd ?ks) ?ks"
    by (simp only: r(4) lst map_fst_delete)
  moreover have "filter (\<lambda>x. x \<noteq> hd ?ks) ?ks = tl ?ks"
    using d by (rule filter_hd_distinct) (simp add: kvs)
  ultimately have c: "map fst (cache (set_c ?s1 k v now)) = tl ?ks"
    by simp
  have "butlast (k # rev (map fst init)) = rev (tl (map fst init @ [k]))"
    by (cases init) simp_all
  then have rc: "recency (set_c ?s1 k v now) = rev (tl ?ks)"
    by (simp only: r(3) r1 ks)
  have ev: "evictions (stats (set_c ?s1 k v now)) = 1" "size_c (stats (set_c ?s1 k v now)) = int n"
    by (simp_all add: r(5) e1 z1)
  show ?thesis
    unfolding f using c rc ev by simp
qed

lemma cache_get_Some:
  assumes "lru_inv s as" "cache_get s k = Some node"
  shows "\<exists>a. map_of (cache s) k = Some a \<and> heap s a = Some node"
  using assms(2) by (auto simp add: cache_get_def split: option.splits)

lemma cache_get_None:
  assumes "lru_inv s as" "cache_get s k = None"
  shows "map_of (cache s) k = None"
proof (cases "map_of (cache s) k")
  case None then show ?thesis .
next
  case (Some a)
  from lru_inv_lookup(3)[OF assms(1) Some] assms(2) Some show ?thesis
    by (auto simp add: cache_get_def)
qed

lemma length_live_entries: "length (live_entries s now) \<le> length (cache s)"
  by (simp add: live_entries_def)

text \<open>
  Claim C2 (capacity invariant). After any sequence of public operations and runs of the
  background task on a new cache, \<^verbatim>\<open>stats.size\<close> is the number of entries of the map and
  is at most the capacity (at most zero for a negative capacity), and so is the number of
  entries that are not expired. On a new cache with capacity \<open>n\<close>, \<open>n + 1\<close> calls of
  \<^verbatim>\<open>set\<close> with different keys and nothing in between evict exactly the key that was set
  first: one eviction is counted, the other \<open>n\<close> keys are in the map in the order of
  their insertion, and the linked list holds them from the newest to the oldest.
\<close>

theorem capacity_invariant:
  assumes "s = apply_ops (LRUCache_new cap t) ops"
    and "s' = apply_ops (LRUCache_new (int n) t') (sets kvs)"
    and "distinct (map fst kvs)" and "length kvs = n + 1"
  shows "size_c (getStats s) = int (length (cache s))
       \<and> size_c (getStats s) \<le> max 0 cap
       \<and> int (length (live_entries s now)) \<le> max 0 cap
       \<and> evictions (getStats s') = 1
       \<and> map fst (cache s') = tl (map fst kvs)
       \<and> cache_get s' (fst (hd kvs)) = None
       \<and> recency s' = rev (tl (map fst kvs))
       \<and> size_c (getStats s') = int n"
proof -
  have ok: "lru_ok s" and cap: "capacity s = cap"
    unfolding assms(1) by (rule reachable_ok)+
  then obtain as where inv: "lru_inv s as" and b: "size_c (stats s) \<le> max 0 cap"
    unfolding lru_ok_def by auto
  have sz: "size_c (stats s) = int (length (cache s))" using inv unfolding lru_inv_def by blast
  have "int (length (live_entries s now)) \<le> int (length (cache s))"
    using length_live_entries[of s now] by simp
  then have live: "int (length (live_entries s now)) \<le> max 0 cap" using sz b by linarith
  note o = sets_overflow[OF assms(3,4), of t', folded assms(2)]
  have "kvs \<noteq> []" using assms(4) by auto
  then have "fst (hd kvs) = hd (map fst kvs)" by (simp add: hd_map)
  moreover have "hd (map fst kvs) \<notin> set (tl (map fst kvs))"
    using assms(3) \<open>kvs \<noteq> []\<close> by (cases kvs) auto
  ultimately have "fst (hd kvs) \<notin> fst ` set (cache s')"
    using o by (metis set_map)
  then have "map_of (cache s') (fst (hd kvs)) = None" by (simp add: map_of_eq_None_iff)
  then have gone: "cache_get s' (fst (hd kvs)) = None" by (simp add: cache_get_def)
  show ?thesis
    using sz b live o gone by (simp add: getStats_def)
qed

text \<open>
  The theorem on a cache of capacity 2 after five operations, and on a cache of capacity 1 with
  the two keys \<open>a\<close> and \<open>b\<close>.
\<close>

theorem capacity_invariant_witness:
  "distinct (map fst [(''a'', 1::nat, 0::int), (''b'', 2, 5)])
   \<and> length [(''a'', 1::nat, 0::int), (''b'', 2, 5)] = 1 + 1
   \<and> size_c (getStats (apply_ops (LRUCache_new 2 60000)
         [(Set ''a'' (1::nat), 0), (Get ''a'', 1), (Set ''b'' 2, 2), (Set ''c'' 3, 3), (Has ''a'', 4)])) \<le> 2
   \<and> evictions (getStats (apply_ops (LRUCache_new (int 1) 60000)
         (sets [(''a'', 1::nat, 0), (''b'', 2, 5)]))) = 1
   \<and> map fst (cache (apply_ops (LRUCache_new (int 1) 60000)
         (sets [(''a'', 1::nat, 0), (''b'', 2, 5)]))) = [''b'']"
  using capacity_invariant
    [OF refl refl, where kvs = "[(''a'', 1::nat, 0::int), (''b'', 2, 5)]" and n = 1 and cap = 2
       and t = 60000 and t' = 60000 and now = 10
       and ops = "[(Set ''a'' (1::nat), 0), (Get ''a'', 1), (Set ''b'' 2, 2), (Set ''c'' 3, 3), (Has ''a'', 4)]"]
  by simp

text \<open>
  Claim C8 (expiration on get). In every reachable state: for a key whose node is older than
  \<^verbatim>\<open>ttl\<close> at the time of the call, \<^verbatim>\<open>get\<close> returns \<^verbatim>\<open>null\<close>, counts a miss, decrements
  \<^verbatim>\<open>stats.size\<close>, and removes the entry from the map and its node from the linked list; for
  a key that is not in the map, \<^verbatim>\<open>get\<close> returns \<^verbatim>\<open>null\<close> and changes nothing but the
  count of misses.
\<close>

theorem expiration_on_get:
  assumes reach: "s = apply_ops (LRUCache_new cap t) ops"
  shows "(\<forall>node. cache_get s k = Some node \<and> now - timestamp node > ttl s \<longrightarrow>
            snd (get s k now) = None
            \<and> stats (fst (get s k now)) =
                (stats s)\<lparr>size_c := size_c (stats s) - 1, misses := misses (stats s) + 1\<rparr>
            \<and> cache (fst (get s k now)) = AList.delete k (cache s)
            \<and> cache_get (fst (get s k now)) k = None
            \<and> k \<notin> set (recency (fst (get s k now)))
            \<and> int (length (cache (fst (get s k now)))) = int (length (cache s)) - 1)
       \<and> (cache_get s k = None \<longrightarrow>
            get s k now = (s\<lparr>stats := (stats s)\<lparr>misses := misses (stats s) + 1\<rparr>\<rparr>, None))"
proof (intro conjI allI impI)
  have ok: "lru_ok s" unfolding reach by (rule reachable_ok)
  then obtain as where inv: "lru_inv s as" unfolding lru_ok_def by auto
  {
    assume "cache_get s k = None"
    then have "map_of (cache s) k = None" using inv by (intro cache_get_None)
    then show "get s k now = (s\<lparr>stats := (stats s)\<lparr>misses := misses (stats s) + 1\<rparr>\<rparr>, None)"
      by (rule get_miss)
  }
  fix node assume "cache_get s k = Some node \<and> now - timestamp node > ttl s"
  then have cg: "cache_get s k = Some node" and ex: "now - timestamp node > ttl s" by simp_all
  from cache_get_Some[OF inv cg] obtain a where look: "map_of (cache s) k = Some a"
    and node: "heap s a = Some node" by blast
  note g = get_expired[OF look node ex]
  let ?s' = "fst (get s k now)"
  show "snd (get s k now) = None" by (simp add: g)
  show "stats ?s' = (stats s)\<lparr>size_c := size_c (stats s) - 1, misses := misses (stats s) + 1\<rparr>"
    by (simp add: g)
  show c: "cache ?s' = AList.delete k (cache s)" by (simp add: g drop_entry_fields)
  have "lru_inv (drop_entry s k a) (remove1 a as)" using inv look by (rule drop_entry_inv)
  then have inv': "lru_inv ?s' (remove1 a as)"
    unfolding g fst_conv by (rule lru_inv_stats) (simp add: drop_entry_fields)
  have gone: "map_of (cache ?s') k = None"
    by (simp add: c delete_conv')
  then show "cache_get ?s' k = None" by (simp add: cache_get_def)
  have "set (recency ?s') = fst ` set (cache ?s')"
    by (simp only: recency_eq[OF inv'] keys_at_set[OF inv'])
  then show "k \<notin> set (recency ?s')"
    using gone by (simp add: map_of_eq_None_iff)
  have "size_c (stats ?s') = int (length (cache ?s'))" "size_c (stats s) = int (length (cache s))"
    using inv inv' unfolding lru_inv_def by blast+
  then show "int (length (cache ?s')) = int (length (cache s)) - 1"
    by (simp add: g)
qed

text \<open>
  The theorem for an entry written at time 0 with a \<^verbatim>\<open>ttl\<close> of 1000 and read at time 2000.
\<close>

theorem expiration_on_get_witness:
  "cache_get (apply_ops (LRUCache_new 2 1000) [(Set ''a'' (7::nat), 0)]) ''a''
     = Some \<lparr>key = ''a'', val = 7, timestamp = 0, prev = None, nxt = None\<rparr>
   \<and> snd (get (apply_ops (LRUCache_new 2 1000) [(Set ''a'' (7::nat), 0)]) ''a'' 2000) = None
   \<and> stats (fst (get (apply_ops (LRUCache_new 2 1000) [(Set ''a'' (7::nat), 0)]) ''a'' 2000))
       = \<lparr>hits = 0, misses = 1, size_c = 0, evictions = 0\<rparr>"
  using expiration_on_get
    [OF refl, where cap = 2 and t = 1000 and ops = "[(Set ''a'' (7::nat), 0)]" and k = "''a''"
       and now = 2000]
  by (simp add: apply_ops_def LRUCache_new_def set_c_def Let_def addToHead_def assign_def
        cache_get_def)

text \<open>
  Claim C10 (the evictions counter). In every reachable state \<^verbatim>\<open>get\<close>, \<^verbatim>\<open>has\<close>, the
  background task, \<^verbatim>\<open>clear\<close> and \<^verbatim>\<open>destroy\<close> leave \<^verbatim>\<open>stats.evictions\<close> as it is;
  \<^verbatim>\<open>set\<close> increments it exactly when the key is new and the insertion takes the size over
  the capacity. The removal of an expired entry decrements \<^verbatim>\<open>stats.size\<close> by one in
  \<^verbatim>\<open>get\<close> and in \<^verbatim>\<open>has\<close>, and the background task decrements it by the number of
  stale keys it has collected.
\<close>

theorem evictions_only_on_capacity:
  assumes reach: "s = apply_ops (LRUCache_new cap t) ops"
  shows "evictions (stats (fst (get s k now))) = evictions (stats s)
       \<and> evictions (stats (fst (has s k now))) = evictions (stats s)
       \<and> evictions (stats (cleanupStaleEntries s now)) = evictions (stats s)
       \<and> evictions (stats (clear s)) = evictions (stats s)
       \<and> evictions (stats (destroy s)) = evictions (stats s)
       \<and> evictions (stats (set_c s k v now)) =
           evictions (stats s)
             + (if cache_get s k = None \<and> size_c (stats s) + 1 > capacity s then 1 else 0)
       \<and> (\<forall>node. cache_get s k = Some node \<and> now - timestamp node > ttl s \<longrightarrow>
             size_c (stats (fst (get s k now))) = size_c (stats s) - 1
             \<and> size_c (stats (fst (has s k now))) = size_c (stats s) - 1)
       \<and> size_c (stats (cleanupStaleEntries s now))
           = size_c (stats s) - int (length (keysToDelete s now))"
proof -
  have ok: "lru_ok s" unfolding reach by (rule reachable_ok)
  then obtain as where inv: "lru_inv s as" unfolding lru_ok_def by auto
  have 1: "evictions (stats (fst (get s k now))) = evictions (stats s)"
    by (simp add: get_def Let_def drop_entry_fields moveToHead_fields split: option.splits)
  have 2: "evictions (stats (fst (has s k now))) = evictions (stats s)"
    by (simp add: has_def drop_entry_fields split: option.splits)
  note f = cleanup_fold[OF inv keysToDelete_props[OF inv, of now]]
  have 3: "evictions (stats (cleanupStaleEntries s now)) = evictions (stats s)"
    and 8: "size_c (stats (cleanupStaleEntries s now))
           = size_c (stats s) - int (length (keysToDelete s now))"
    using f by (simp_all add: cleanupStaleEntries_def)
  have 4: "evictions (stats (clear s)) = evictions (stats s)"
    and 5: "evictions (stats (destroy s)) = evictions (stats s)"
    by (simp_all add: clear_def destroy_def)
  have 6: "evictions (stats (set_c s k v now)) =
           evictions (stats s)
             + (if cache_get s k = None \<and> size_c (stats s) + 1 > capacity s then 1 else 0)"
  proof (cases "map_of (cache s) k")
    case (Some a)
    from lru_inv_lookup(3)[OF inv Some] have "cache_get s k \<noteq> None"
      using Some by (auto simp add: cache_get_def)
    then show ?thesis by (simp add: set_c_existing_inv(3)[OF inv Some])
  next
    case None
    then have cg: "cache_get s k = None" by (simp add: cache_get_def)
    show ?thesis
    proof (cases "size_c (stats s) + 1 \<le> capacity s")
      case True
      then show ?thesis
        by (simp add: set_c_new_room(1)[OF inv None True] inserted_fields cg)
    next
      case False
      then have full: "size_c (stats s) + 1 > capacity s" by simp
      then show ?thesis
        by (simp add: set_c_new_full(5)[OF inv None full] cg)
    qed
  qed
  have 7: "\<forall>node. cache_get s k = Some node \<and> now - timestamp node > ttl s \<longrightarrow>
             size_c (stats (fst (get s k now))) = size_c (stats s) - 1
             \<and> size_c (stats (fst (has s k now))) = size_c (stats s) - 1"
  proof (intro allI impI)
    fix node assume "cache_get s k = Some node \<and> now - timestamp node > ttl s"
    then have cg: "cache_get s k = Some node" and ex: "now - timestamp node > ttl s" by simp_all
    from cache_get_Some[OF inv cg] obtain a where look: "map_of (cache s) k = Some a"
      and node: "heap s a = Some node" by blast
    show "size_c (stats (fst (get s k now))) = size_c (stats s) - 1
             \<and> size_c (stats (fst (has s k now))) = size_c (stats s) - 1"
      by (simp add: get_expired[OF look node ex] has_expired[OF look node ex] drop_entry_fields)
  qed
  show ?thesis using 1 2 3 4 5 6 7 8 by blast
qed

text \<open>
  The theorem on a cache of capacity 1 that holds the key \<open>a\<close>, written at time 0: the read
  of the expired entry at time 2000, and the insertion of a second key.
\<close>

theorem evictions_only_on_capacity_witness:
  "cache_get (apply_ops (LRUCache_new 1 1000) [(Set ''a'' (7::nat), 0)]) ''a''
     = Some \<lparr>key = ''a'', val = 7, timestamp = 0, prev = None, nxt = None\<rparr>
   \<and> evictions (stats (fst (get (apply_ops (LRUCache_new 1 1000) [(Set ''a'' (7::nat), 0)]) ''a'' 2000))) = 0
   \<and> size_c (stats (fst (get (apply_ops (LRUCache_new 1 1000) [(Set ''a'' (7::nat), 0)]) ''a'' 2000))) = 0
   \<and> evictions (stats (set_c (apply_ops (LRUCache_new 1 1000) [(Set ''a'' (7::nat), 0)]) ''b'' 8 5)) = 1"
  using evictions_only_on_capacity
    [OF refl, where cap = 1 and t = 1000 and ops = "[(Set ''a'' (7::nat), 0)]" and k = "''a''"
       and now = 2000]
    evictions_only_on_capacity
    [OF refl, where cap = 1 and t = 1000 and ops = "[(Set ''a'' (7::nat), 0)]" and k = "''b''"
       and now = 5 and v = 8]
  by (simp add: apply_ops_def LRUCache_new_def set_c_def Let_def addToHead_def assign_def
        cache_get_def)

text \<open>
  Claim C7 (recency correctness). On a new cache of capacity 2, for any three different keys,
  any values and any times with the entry of \<open>a\<close> not expired at the time of the
  \<^verbatim>\<open>get\<close>: after \<^verbatim>\<open>set(a)\<close>, \<^verbatim>\<open>set(b)\<close> the linked list is \<open>b, a\<close>; the
  \<^verbatim>\<open>get(a)\<close> returns the value of \<open>a\<close> and makes the list \<open>a, b\<close>; the \<^verbatim>\<open>set(c)\<close>
  that follows evicts \<open>b\<close>, and \<open>a\<close> and \<open>c\<close> stay.
\<close>

theorem recency_correctness:
  assumes "a \<noteq> b" "a \<noteq> c" "b \<noteq> c"
      and "t3 - t1 \<le> life"
      and "s0 = LRUCache_new 2 life"
      and "s1 = set_c s0 a va t1"
      and "s2 = set_c s1 b vb t2"
      and "s3 = fst (get s2 a t3)"
      and "s4 = set_c s3 c vc t4"
  shows "snd (get s2 a t3) = Some va
       \<and> recency s2 = [b, a] \<and> recency s3 = [a, b] \<and> recency s4 = [c, a]
       \<and> map fst (cache s4) = [a, c]
       \<and> evictions (stats s3) = 0 \<and> evictions (stats s4) = 1 \<and> size_c (stats s4) = 2"
proof -
  have s1: "s1 = \<lparr>capacity = 2, ttl = life, cache = [(a, 0)], head = Some 0, tail = Some 0,
      stats = \<lparr>hits = 0, misses = 0, size_c = 1, evictions = 0\<rparr>,
      cleanupInterval = True,
      heap = [0 \<mapsto> \<lparr>key = a, val = va, timestamp = t1, prev = None, nxt = None\<rparr>], allocated = 1\<rparr>"
    unfolding assms(6) assms(5)
    by (simp add: LRUCache_new_def set_c_def Let_def addToHead_def assign_def)
  have s2: "s2 = \<lparr>capacity = 2, ttl = life, cache = [(a, 0), (b, 1)], head = Some 1, tail = Some 0,
      stats = \<lparr>hits = 0, misses = 0, size_c = 2, evictions = 0\<rparr>,
      cleanupInterval = True,
      heap = [0 \<mapsto> \<lparr>key = a, val = va, timestamp = t1, prev = Some 1, nxt = None\<rparr>,
              1 \<mapsto> \<lparr>key = b, val = vb, timestamp = t2, prev = None, nxt = Some 0\<rparr>], allocated = 2\<rparr>"
    unfolding assms(7) s1 using assms(1)
    by (simp add: set_c_def Let_def addToHead_def assign_def fun_upd_twist)
  have g: "get s2 a t3 =
     (\<lparr>capacity = 2, ttl = life, cache = [(a, 0), (b, 1)], head = Some 0, tail = Some 1,
      stats = \<lparr>hits = 1, misses = 0, size_c = 2, evictions = 0\<rparr>,
      cleanupInterval = True,
      heap = [0 \<mapsto> \<lparr>key = a, val = va, timestamp = t1, prev = None, nxt = Some 1\<rparr>,
              1 \<mapsto> \<lparr>key = b, val = vb, timestamp = t2, prev = Some 0, nxt = None\<rparr>], allocated = 2\<rparr>,
      Some va)"
    unfolding s2 using assms(1,4)
    by (simp add: get_def isExpired_def moveToHead_def removeNode_def Let_def addToHead_def
          assign_def fun_upd_twist)
  have s3: "s3 = \<lparr>capacity = 2, ttl = life, cache = [(a, 0), (b, 1)], head = Some 0, tail = Some 1,
      stats = \<lparr>hits = 1, misses = 0, size_c = 2, evictions = 0\<rparr>,
      cleanupInterval = True,
      heap = [0 \<mapsto> \<lparr>key = a, val = va, timestamp = t1, prev = None, nxt = Some 1\<rparr>,
              1 \<mapsto> \<lparr>key = b, val = vb, timestamp = t2, prev = Some 0, nxt = None\<rparr>], allocated = 2\<rparr>"
    unfolding assms(8) g by simp
  have s4: "s4 = \<lparr>capacity = 2, ttl = life, cache = [(a, 0), (c, 2)], head = Some 2, tail = Some 0,
      stats = \<lparr>hits = 1, misses = 0, size_c = 2, evictions = 1\<rparr>,
      cleanupInterval = True,
      heap = [0 \<mapsto> \<lparr>key = a, val = va, timestamp = t1, prev = Some 2, nxt = None\<rparr>,
              1 \<mapsto> \<lparr>key = b, val = vb, timestamp = t2, prev = Some 0, nxt = None\<rparr>,
              2 \<mapsto> \<lparr>key = c, val = vc, timestamp = t4, prev = None, nxt = Some 0\<rparr>], allocated = 3\<rparr>"
    unfolding assms(9) s3 using assms(1,2,3)
    by (simp add: set_c_def Let_def addToHead_def evictLRU_def removeNode_def assign_def
          fun_upd_twist)
  show ?thesis
    by (simp add: g) (simp add: s2 s3 s4 recency_def)
qed

text \<open>
  The theorem for the keys \<open>a\<close>, \<open>b\<close>, \<open>c\<close> at the times 0, 10, 20 and 30 with a
  \<^verbatim>\<open>ttl\<close> of one minute.
\<close>

theorem recency_correctness_witness:
  "snd (get (set_c (set_c (LRUCache_new 2 60000) ''a'' (1::nat) 0) ''b'' 2 10) ''a'' 20) = Some 1
   \<and> recency (set_c (fst (get (set_c (set_c (LRUCache_new 2 60000) ''a'' (1::nat) 0) ''b'' 2 10) ''a'' 20))
        ''c'' 3 30) = [''c'', ''a'']"
  using recency_correctness
    [OF _ _ _ _ refl refl refl refl refl, where a = "''a''" and b = "''b''" and c = "''c''"
       and ?t1.0 = 0 and ?t2.0 = 10 and ?t3.0 = 20 and ?t4.0 = 30 and life = 60000
       and va = "1::nat" and vb = 2 and vc = 3]
  by simp

end
